theory Spec2Isabelle
  imports Main "HOL-Library.Sublist"
begin

section \<open>Python strings and the Unicode tables\<close>

text \<open>
  A Python \<^verbatim>\<open>str\<close> is a sequence of Unicode code points; \<^verbatim>\<open>len\<close>, slicing and the
  \<^verbatim>\<open>re\<close> module all count code points. A string is therefore a list of code points.
  Literals of the source are ASCII (except the en-dash U+2013 = 8211 of the period pattern) and
  are written \<open>asc ''...''\<close>.
\<close>

type_synonym cp = nat
type_synonym ustr = "cp list"

definition asc :: "string \<Rightarrow> ustr" where
  "asc s = map (of_char :: char \<Rightarrow> nat) s"

text \<open>
  The character tables of the interpreter are not part of the repository: which code points
  \<^verbatim>\<open>\s\<close>, \<^verbatim>\<open>str.strip\<close> and \<^verbatim>\<open>str.split\<close> treat as white space, which ones \<^verbatim>\<open>\d\<close> accepts and
  what digit \<^verbatim>\<open>int\<close> reads from them, which ones \<^verbatim>\<open>\w\<close> accepts besides the underscore, what
  \<^verbatim>\<open>str.lower\<close> returns, and which subject characters a pattern literal matches under
  \<^verbatim>\<open>re.IGNORECASE\<close>. They are a parameter of every function that uses them.
\<close>

record unicode_db =
  u_space :: "cp \<Rightarrow> bool"
  u_decimal :: "cp \<Rightarrow> nat option"
  u_alnum :: "cp \<Rightarrow> bool"
  u_lower :: "ustr \<Rightarrow> ustr"
  u_ieq :: "cp \<Rightarrow> cp \<Rightarrow> bool"

definition ascii_space :: "cp \<Rightarrow> bool" where
  "ascii_space c = ((9 \<le> c \<and> c \<le> 13) \<or> (28 \<le> c \<and> c \<le> 32))"

definition ascii_decimal :: "cp \<Rightarrow> nat option" where
  "ascii_decimal c = (if 48 \<le> c \<and> c \<le> 57 then Some (c - 48) else None)"

definition ascii_alnum :: "cp \<Rightarrow> bool" where
  "ascii_alnum c = ((48 \<le> c \<and> c \<le> 57) \<or> (65 \<le> c \<and> c \<le> 90) \<or> (97 \<le> c \<and> c \<le> 122))"

definition ascii_lower :: "cp \<Rightarrow> cp" where
  "ascii_lower c = (if 65 \<le> c \<and> c \<le> 90 then c + 32 else c)"

definition is_ascii :: "ustr \<Rightarrow> bool" where
  "is_ascii s = list_all (\<lambda>c. c < 128) s"

text \<open>What every Python 3 interpreter does on the 128 ASCII code points.\<close>

definition unicode_ok :: "unicode_db \<Rightarrow> bool" where
  "unicode_ok U =
     ((\<forall>c<128. u_space U c = ascii_space c) \<and>
      (\<forall>c<128. u_decimal U c = ascii_decimal c) \<and>
      (\<forall>c<128. u_alnum U c = ascii_alnum c) \<and>
      (\<forall>s. is_ascii s \<longrightarrow> u_lower U s = map ascii_lower s) \<and>
      (\<forall>a<128. \<forall>b<128. u_ieq U a b = (ascii_lower a = ascii_lower b)))"

text \<open>The tables that know the ASCII characters only; they instantiate \<open>U\<close> in closed examples.\<close>

definition ascii_db :: unicode_db where
  "ascii_db = \<lparr>u_space = ascii_space, u_decimal = ascii_decimal, u_alnum = ascii_alnum,
     u_lower = map ascii_lower, u_ieq = (\<lambda>a b. ascii_lower a = ascii_lower b)\<rparr>"

subsection \<open>String methods\<close>

text \<open>\<^verbatim>\<open>s.strip()\<close>\<close>

definition py_strip :: "unicode_db \<Rightarrow> ustr \<Rightarrow> ustr" where
  "py_strip U s = rev (dropWhile (u_space U) (rev (dropWhile (u_space U) s)))"

text \<open>\<^verbatim>\<open>s.split(sep)\<close> for a one-character separator; \<open>w\<close> is the piece being read.\<close>

fun split_on :: "cp \<Rightarrow> ustr \<Rightarrow> ustr \<Rightarrow> ustr list" where
  "split_on sep w [] = [w]"
| "split_on sep w (x # xs) =
     (if x = sep then w # split_on sep [] xs else split_on sep (w @ [x]) xs)"

definition py_split :: "cp \<Rightarrow> ustr \<Rightarrow> ustr list" where
  "py_split sep s = split_on sep [] s"

text \<open>\<^verbatim>\<open>s.split()\<close>: the maximal runs of non-space characters.\<close>

fun split_ws :: "unicode_db \<Rightarrow> ustr \<Rightarrow> ustr \<Rightarrow> ustr list" where
  "split_ws U w [] = (if w = [] then [] else [w])"
| "split_ws U w (x # xs) =
     (if u_space U x then (if w = [] then [] else [w]) @ split_ws U [] xs
      else split_ws U (w @ [x]) xs)"

definition py_split_ws :: "unicode_db \<Rightarrow> ustr \<Rightarrow> ustr list" where
  "py_split_ws U s = split_ws U [] s"

text \<open>\<^verbatim>\<open>sep.join(xs)\<close>\<close>

fun py_join :: "ustr \<Rightarrow> ustr list \<Rightarrow> ustr" where
  "py_join sep [] = []"
| "py_join sep [x] = x"
| "py_join sep (x # y # ys) = x @ sep @ py_join sep (y # ys)"

text \<open>\<^verbatim>\<open>s[a:b]\<close> for \<open>0 \<le> a\<close>, \<open>0 \<le> b\<close>; empty when \<open>b \<le> a\<close>.\<close>

definition slice :: "ustr \<Rightarrow> nat \<Rightarrow> nat \<Rightarrow> ustr" where
  "slice s a b = take (b - a) (drop a s)"

text \<open>\<^verbatim>\<open>w in s\<close>\<close>

fun contains :: "ustr \<Rightarrow> ustr \<Rightarrow> bool" where
  "contains w [] = (w = [])"
| "contains w (x # xs) = (prefix w (x # xs) \<or> contains w xs)"

text \<open>
  A table cell read by pandas is a string or NaN; \<open>None\<close> is NaN. \<^verbatim>\<open>str(cell)\<close> of NaN is
  the text \<^verbatim>\<open>nan\<close>.
\<close>

type_synonym cell = "ustr option"

definition py_str :: "cell \<Rightarrow> ustr" where
  "py_str c = (case c of None \<Rightarrow> asc ''nan'' | Some s \<Rightarrow> s)"

section \<open>Regular expressions\<close>

text \<open>
  The fragment of \<^verbatim>\<open>re\<close> that the program's eight patterns use. Character classes:
  \<^verbatim>\<open>\d\<close>, \<^verbatim>\<open>\s\<close>, \<^verbatim>\<open>\w\<close>, \<^verbatim>\<open>[A-Z]\<close>, \<^verbatim>\<open>.\<close> (anything but a newline), a set of characters, a union.
\<close>

datatype cls = Digit | Space | Word | Upper | AnyChar | OneOf ustr | Union cls cls

fun in_cls :: "unicode_db \<Rightarrow> cls \<Rightarrow> cp \<Rightarrow> bool" where
  "in_cls U Digit c = (u_decimal U c \<noteq> None)"
| "in_cls U Space c = u_space U c"
| "in_cls U Word c = (u_alnum U c \<or> c = 95)"
| "in_cls U Upper c = (65 \<le> c \<and> c \<le> 90)"
| "in_cls U AnyChar c = (c \<noteq> 10)"
| "in_cls U (OneOf cs) c = (c \<in> set cs)"
| "in_cls U (Union a b) c = (in_cls U a c \<or> in_cls U b c)"

text \<open>
  Patterns: a literal text, a literal text under \<^verbatim>\<open>IGNORECASE\<close>, one character of a class,
  sequence, alternative \<^verbatim>\<open>a|b\<close>, \<^verbatim>\<open>a?\<close>, the greedy repetition \<^verbatim>\<open>k{lo,hi}\<close> of a class
  (\<^verbatim>\<open>k*\<close> is \<open>Rep k 0 None\<close>, \<^verbatim>\<open>k+\<close> is \<open>Rep k 1 None\<close>), the lazy repetition \<^verbatim>\<open>k*?\<close>, a
  capturing group, \<^verbatim>\<open>^\<close> and \<^verbatim>\<open>$\<close> (no \<^verbatim>\<open>MULTILINE\<close>).
\<close>

datatype rx =
    Lit ustr
  | LitI ustr
  | Cls cls
  | Seq rx rx
  | Alt rx rx
  | Opt rx
  | Rep cls nat "nat option"
  | RepLazy cls nat "nat option"
  | Grp rx
  | Bol
  | Eol

text \<open>
  A matcher state: the position in the subject, the text from there on, the groups captured
  so far (in the order of their numbers).
\<close>

type_synonym mstate = "nat \<times> ustr \<times> ustr list"

text \<open>
  \<^verbatim>\<open>re\<close> is a backtracking matcher: every function returns the states in which the pattern can
  end, in the order in which the engine tries them; the first one is the match. A greedy
  repetition first tries one more character, a lazy one first tries to stop.
\<close>

fun greedy :: "(cp \<Rightarrow> bool) \<Rightarrow> nat \<Rightarrow> nat option \<Rightarrow> mstate \<Rightarrow> mstate list" where
  "greedy P lo hi (p, [], c) = (if lo = 0 then [(p, [], c)] else [])"
| "greedy P lo hi (p, x # xs, c) =
     (if hi \<noteq> Some 0 \<and> P x
      then greedy P (lo - 1) (map_option (\<lambda>h. h - 1) hi) (Suc p, xs, c)
      else []) @
     (if lo = 0 then [(p, x # xs, c)] else [])"

fun lazy :: "(cp \<Rightarrow> bool) \<Rightarrow> nat \<Rightarrow> nat option \<Rightarrow> mstate \<Rightarrow> mstate list" where
  "lazy P lo hi (p, [], c) = (if lo = 0 then [(p, [], c)] else [])"
| "lazy P lo hi (p, x # xs, c) =
     (if lo = 0 then [(p, x # xs, c)] else []) @
     (if hi \<noteq> Some 0 \<and> P x
      then lazy P (lo - 1) (map_option (\<lambda>h. h - 1) hi) (Suc p, xs, c)
      else [])"

fun rxm :: "unicode_db \<Rightarrow> rx \<Rightarrow> mstate \<Rightarrow> mstate list" where
  "rxm U (Lit w) (p, r, c) =
     (if prefix w r then [(p + length w, drop (length w) r, c)] else [])"
| "rxm U (LitI w) (p, r, c) =
     (if length w \<le> length r \<and> list_all2 (u_ieq U) w (take (length w) r)
      then [(p + length w, drop (length w) r, c)] else [])"
| "rxm U (Cls k) (p, r, c) =
     (case r of [] \<Rightarrow> [] | x # xs \<Rightarrow> if in_cls U k x then [(Suc p, xs, c)] else [])"
| "rxm U (Seq a b) st = concat (map (rxm U b) (rxm U a st))"
| "rxm U (Alt a b) st = rxm U a st @ rxm U b st"
| "rxm U (Opt a) st = rxm U a st @ [st]"
| "rxm U (Rep k lo hi) st = greedy (in_cls U k) lo hi st"
| "rxm U (RepLazy k lo hi) st = lazy (in_cls U k) lo hi st"
| "rxm U (Grp a) (p, r, c) =
     map (\<lambda>(p', r', c'). (p', r', c' @ [take (p' - p) r])) (rxm U a (p, r, c))"
| "rxm U Bol (p, r, c) = (if p = 0 then [(p, r, c)] else [])"
| "rxm U Eol (p, r, c) = (if r = [] \<or> r = [10] then [(p, r, c)] else [])"

text \<open>\<open>seqs [a, b, c]\<close> is the pattern \<^verbatim>\<open>abc\<close>.\<close>

fun seqs :: "rx list \<Rightarrow> rx" where
  "seqs [] = Lit []"
| "seqs [r] = r"
| "seqs (r # rs) = Seq r (seqs rs)"

text \<open>A match object: \<^verbatim>\<open>m.start()\<close>, \<^verbatim>\<open>m.end()\<close> and the groups 1, 2, ...\<close>

record rmatch =
  m_start :: nat
  m_end :: nat
  m_groups :: "ustr list"

text \<open>The match of the pattern that starts at position \<open>p\<close>, where the subject goes on with \<open>r\<close>.\<close>

definition match_at :: "unicode_db \<Rightarrow> rx \<Rightarrow> nat \<Rightarrow> ustr \<Rightarrow> (rmatch \<times> ustr) option" where
  "match_at U r p s =
     (case rxm U r (p, s, []) of
        [] \<Rightarrow> None
      | (p', s', c) # _ \<Rightarrow> Some (\<lparr>m_start = p, m_end = p', m_groups = c\<rparr>, s'))"

text \<open>\<^verbatim>\<open>m.group(k)\<close>; a group that the pattern does not have is an \<^verbatim>\<open>IndexError\<close>.\<close>

definition group :: "rmatch \<Rightarrow> nat \<Rightarrow> ustr option" where
  "group m k = (if 1 \<le> k \<and> k \<le> length (m_groups m) then Some (m_groups m ! (k - 1)) else None)"

text \<open>\<^verbatim>\<open>re.match(r, s)\<close>: a match at position 0.\<close>

definition re_match :: "unicode_db \<Rightarrow> rx \<Rightarrow> ustr \<Rightarrow> rmatch option" where
  "re_match U r s = map_option fst (match_at U r 0 s)"

text \<open>\<^verbatim>\<open>re.search(r, s)\<close>: the match at the first position that has one.\<close>

fun search_from :: "unicode_db \<Rightarrow> rx \<Rightarrow> nat \<Rightarrow> ustr \<Rightarrow> rmatch option" where
  "search_from U r p [] = map_option fst (match_at U r p [])"
| "search_from U r p (x # xs) =
     (case match_at U r p (x # xs) of
        Some (m, _) \<Rightarrow> Some m
      | None \<Rightarrow> search_from U r (Suc p) xs)"

definition re_search :: "unicode_db \<Rightarrow> rx \<Rightarrow> ustr \<Rightarrow> rmatch option" where
  "re_search U r s = search_from U r 0 s"

text \<open>
  \<^verbatim>\<open>re.finditer(r, s)\<close>: the matches from left to right, each search starting where the last
  match ended. A match of the empty text is reported and the scan moves on by one character;
  no pattern of the program matches the empty text (\<open>rxm_progress\<close> lemmas below).
\<close>

function finditer_from :: "unicode_db \<Rightarrow> rx \<Rightarrow> nat \<Rightarrow> ustr \<Rightarrow> rmatch list" where
  "finditer_from U r p [] = (case match_at U r p [] of None \<Rightarrow> [] | Some (m, _) \<Rightarrow> [m])"
| "finditer_from U r p (x # xs) =
     (case match_at U r p (x # xs) of
        None \<Rightarrow> finditer_from U r (Suc p) xs
      | Some (m, s') \<Rightarrow>
          if length s' < length (x # xs) then m # finditer_from U r (m_end m) s'
          else m # finditer_from U r (Suc p) xs)"
  by pat_completeness auto
termination
  by (relation "measure (\<lambda>(U, r, p, s). length s)") auto

definition re_finditer :: "unicode_db \<Rightarrow> rx \<Rightarrow> ustr \<Rightarrow> rmatch list" where
  "re_finditer U r s = finditer_from U r 0 s"

text \<open>\<^verbatim>\<open>re.sub(r, '', s)\<close>: the subject without the matches that \<^verbatim>\<open>finditer\<close> finds.\<close>

function sub_from :: "unicode_db \<Rightarrow> rx \<Rightarrow> nat \<Rightarrow> ustr \<Rightarrow> ustr" where
  "sub_from U r p [] = []"
| "sub_from U r p (x # xs) =
     (case match_at U r p (x # xs) of
        None \<Rightarrow> x # sub_from U r (Suc p) xs
      | Some (m, s') \<Rightarrow>
          if length s' < length (x # xs) then sub_from U r (m_end m) s'
          else x # sub_from U r (Suc p) xs)"
  by pat_completeness auto
termination
  by (relation "measure (\<lambda>(U, r, p, s). length s)") auto

definition re_sub :: "unicode_db \<Rightarrow> rx \<Rightarrow> ustr \<Rightarrow> ustr" where
  "re_sub U r s = sub_from U r 0 s"

section \<open>The field normalizers of \<^verbatim>\<open>ISO3166_3Scraper\<close>\<close>

subsection \<open>\<^verbatim>\<open>clean_country_name\<close>\<close>

text \<open>\<^verbatim>\<open>r'\[note \d+\]'\<close>\<close>

definition note_pat :: rx where
  "note_pat = seqs [Lit (asc ''[note ''), Rep Digit 1 None, Lit (asc '']'')]"

definition prefixes :: "ustr list" where
  "prefixes =
     [asc ''Merged into '', asc ''Name changed to '', asc ''Divided into:'',
      asc ''Divided into: '', asc ''Split into '']"

text \<open>The body of the loop over \<^verbatim>\<open>prefixes\<close>; the loop has no \<^verbatim>\<open>break\<close>.\<close>

definition strip_prefix :: "ustr \<Rightarrow> ustr \<Rightarrow> ustr" where
  "strip_prefix name pre = (if prefix pre name then drop (length pre) name else name)"

definition strip_prefixes :: "ustr \<Rightarrow> ustr" where
  "strip_prefixes name = foldl strip_prefix name prefixes"

definition clean_country_name :: "unicode_db \<Rightarrow> cell \<Rightarrow> ustr" where
  "clean_country_name U name =
     (case name of
        None \<Rightarrow> []
      | Some n \<Rightarrow>
          if n = [] then []
          else py_strip U (py_join (asc '' '')
                 (py_split_ws U (strip_prefixes (re_sub U note_pat n)))))"

subsection \<open>\<^verbatim>\<open>parse_former_codes\<close>\<close>

record former_codes =
  alpha2 :: "ustr option"
  alpha3 :: "ustr option"
  numeric :: "ustr option"

text \<open>\<^verbatim>\<open>r'^[A-Z]{2}$'\<close>, \<^verbatim>\<open>r'^[A-Z]{3}$'\<close>, \<^verbatim>\<open>r'^\d{3}$'\<close>\<close>

definition alpha2_pat :: rx where
  "alpha2_pat = seqs [Bol, Rep Upper 2 (Some 2), Eol]"

definition alpha3_pat :: rx where
  "alpha3_pat = seqs [Bol, Rep Upper 3 (Some 3), Eol]"

definition numeric_pat :: rx where
  "numeric_pat = seqs [Bol, Rep Digit 3 (Some 3), Eol]"

text \<open>The body of the loop over \<^verbatim>\<open>parts\<close>.\<close>

definition assign_code :: "unicode_db \<Rightarrow> former_codes \<Rightarrow> ustr \<Rightarrow> former_codes" where
  "assign_code U result part =
     (if re_match U alpha2_pat part \<noteq> None then result\<lparr>alpha2 := Some part\<rparr>
      else if re_match U alpha3_pat part \<noteq> None then result\<lparr>alpha3 := Some part\<rparr>
      else if re_match U numeric_pat part \<noteq> None then result\<lparr>numeric := Some part\<rparr>
      else result)"

definition no_codes :: former_codes where
  "no_codes = \<lparr>alpha2 = None, alpha3 = None, numeric = None\<rparr>"

definition code_parts :: "unicode_db \<Rightarrow> ustr \<Rightarrow> ustr list" where
  "code_parts U codes_str = map (py_strip U) (py_split 44 (py_strip U codes_str))"

definition parse_former_codes :: "unicode_db \<Rightarrow> cell \<Rightarrow> former_codes" where
  "parse_former_codes U codes_str =
     (case codes_str of
        None \<Rightarrow> no_codes
      | Some s \<Rightarrow> if s = [] then no_codes else foldl (assign_code U) no_codes (code_parts U s))"

subsection \<open>\<^verbatim>\<open>parse_validity_period\<close>\<close>

datatype exn = ValueError | IndexError | FetchError

record validity =
  v_start :: "int option"
  v_end :: "int option"

text \<open>\<^verbatim>\<open>r'(\d{4})[x\-](\d{4})'\<close>, where \<^verbatim>\<open>x\<close> stands for the en-dash U+2013 (code point 8211).\<close>

definition period_pat :: rx where
  "period_pat =
     seqs [Grp (Rep Digit 4 (Some 4)), Cls (OneOf [8211, 45]), Grp (Rep Digit 4 (Some 4))]"

text \<open>
  \<^verbatim>\<open>int(s)\<close> on a text of decimal digits. On any other text the model raises \<^verbatim>\<open>ValueError\<close>
  (\<^verbatim>\<open>int\<close> also reads signs, underscores and surrounding blanks; the program passes it the
  digits of a group only).
\<close>

definition py_int :: "unicode_db \<Rightarrow> ustr \<Rightarrow> exn + int" where
  "py_int U s =
     (if s \<noteq> [] \<and> list_all (\<lambda>c. u_decimal U c \<noteq> None) s
      then Inr (foldl (\<lambda>a c. 10 * a + int (the (u_decimal U c))) 0 s)
      else Inl ValueError)"

definition group_exn :: "rmatch \<Rightarrow> nat \<Rightarrow> exn + ustr" where
  "group_exn m k = (case group m k of None \<Rightarrow> Inl IndexError | Some g \<Rightarrow> Inr g)"

definition no_period :: validity where
  "no_period = \<lparr>v_start = None, v_end = None\<rparr>"

definition parse_validity_period :: "unicode_db \<Rightarrow> cell \<Rightarrow> exn + validity" where
  "parse_validity_period U period_str =
     (case period_str of
        None \<Rightarrow> Inr no_period
      | Some s \<Rightarrow>
          if s = [] then Inr no_period
          else (case re_search U period_pat (py_strip U s) of
                  None \<Rightarrow> Inr no_period
                | Some m \<Rightarrow>
                    (case group_exn m 1 of
                       Inl e \<Rightarrow> Inl e
                     | Inr g1 \<Rightarrow>
                    (case py_int U g1 of
                       Inl e \<Rightarrow> Inl e
                     | Inr a \<Rightarrow>
                    (case group_exn m 2 of
                       Inl e \<Rightarrow> Inl e
                     | Inr g2 \<Rightarrow>
                    (case py_int U g2 of
                       Inl e \<Rightarrow> Inl e
                     | Inr b \<Rightarrow> Inr \<lparr>v_start = Some a, v_end = Some b\<rparr>))))))"

subsection \<open>\<^verbatim>\<open>fix_incomplete_name\<close>\<close>

text \<open>
  The dictionary \<^verbatim>\<open>patterns\<close> in its insertion order, with
  \<^verbatim>\<open>r"([\w\s]+,?\s*Republic of)"\<close> and \<^verbatim>\<open>r"([\w\s]+,?\s*Democratic Republic of the)"\<close>.
\<close>

definition phrase_pat :: "ustr \<Rightarrow> rx" where
  "phrase_pat suffix_text =
     Grp (seqs [Rep (Union Word Space) 1 None, Opt (Lit (asc '','')), Rep Space 0 None,
                Lit suffix_text])"

definition patterns :: "(ustr \<times> rx) list" where
  "patterns =
     [(asc ''Republic of'', phrase_pat (asc ''Republic of'')),
      (asc ''Democratic Republic of the'', phrase_pat (asc ''Democratic Republic of the''))]"

text \<open>\<^verbatim>\<open>r'\s*\([A-Z]{2}.*?\)'\<close>\<close>

definition trailing_codes_pat :: rx where
  "trailing_codes_pat =
     seqs [Rep Space 0 None, Lit (asc ''(''), Rep Upper 2 (Some 2), RepLazy AnyChar 0 None,
           Lit (asc '')'')]"

text \<open>The loop over \<^verbatim>\<open>patterns.items()\<close>; it returns from inside on the first find.\<close>

fun fix_loop :: "unicode_db \<Rightarrow> ustr \<Rightarrow> ustr \<Rightarrow> (ustr \<times> rx) list \<Rightarrow> exn + ustr" where
  "fix_loop U name raw_description [] = Inr name"
| "fix_loop U name raw_description ((incomplete, pattern) # rest) =
     (if name = incomplete \<or> suffix incomplete name
      then (case re_search U pattern raw_description of
              Some m \<Rightarrow>
                (case group_exn m 1 of
                   Inl e \<Rightarrow> Inl e
                 | Inr full_name \<Rightarrow> Inr (py_strip U (re_sub U trailing_codes_pat full_name)))
            | None \<Rightarrow> fix_loop U name raw_description rest)
      else fix_loop U name raw_description rest)"

definition fix_incomplete_name :: "unicode_db \<Rightarrow> ustr \<Rightarrow> ustr \<Rightarrow> exn + ustr" where
  "fix_incomplete_name U name raw_description =
     (if name = [] \<or> length name > 25 then Inr name
      else fix_loop U name raw_description patterns)"

subsection \<open>\<^verbatim>\<open>parse_successors\<close>\<close>

record successor =
  s_name :: ustr
  s_alpha2 :: ustr
  s_alpha3 :: ustr
  s_numeric :: ustr

text \<open>\<^verbatim>\<open>r'\(([A-Z]{2}),\s*([A-Z]{2,3}),\s*(\d{3,4})\)'\<close>\<close>

definition code_pattern :: rx where
  "code_pattern =
     seqs [Lit (asc ''(''), Grp (Rep Upper 2 (Some 2)), Lit (asc '',''), Rep Space 0 None,
           Grp (Rep Upper 2 (Some 3)), Lit (asc '',''), Rep Space 0 None,
           Grp (Rep Digit 3 (Some 4)), Lit (asc '')'')]"

text \<open>\<^verbatim>\<open>r'^(?:Divided into:|Split into:)\s*'\<close> with \<^verbatim>\<open>flags=re.IGNORECASE\<close>\<close>

definition keyword_pat :: rx where
  "keyword_pat =
     seqs [Bol, Alt (LitI (asc ''Divided into:'')) (LitI (asc ''Split into:'')),
           Rep Space 0 None]"

text \<open>
  The name that the loop body reads between \<open>start_pos\<close> and \<open>end_pos\<close>, up to the call of
  \<^verbatim>\<open>clean_country_name\<close>.
\<close>

definition country_name_between :: "unicode_db \<Rightarrow> ustr \<Rightarrow> nat \<Rightarrow> nat \<Rightarrow> ustr" where
  "country_name_between U successor_str start_pos end_pos =
     (let country_name_raw = py_strip U (slice successor_str start_pos end_pos);
          country_name_raw = re_sub U keyword_pat country_name_raw;
          country_name_raw = re_sub U note_pat country_name_raw
      in clean_country_name U (Some (py_strip U country_name_raw)))"

text \<open>
  The loop body for the index \<open>i\<close> of \<^verbatim>\<open>enumerate(code_matches)\<close>: \<open>Inr None\<close> is
  \<^verbatim>\<open>continue\<close>, \<open>Inr (Some s)\<close> appends \<open>s\<close>.
\<close>

definition successor_of :: "unicode_db \<Rightarrow> ustr \<Rightarrow> ustr \<Rightarrow> rmatch list \<Rightarrow> nat \<Rightarrow> exn + successor option" where
  "successor_of U successor_str raw_desc code_matches i =
     (let code_match = code_matches ! i;
          start_pos = (if i > 0 then m_end (code_matches ! (i - 1)) else 0);
          end_pos = m_start code_match;
          country_name = country_name_between U successor_str start_pos end_pos
      in if country_name = [] \<or> length country_name < 3 then Inr None
         else (case fix_incomplete_name U country_name raw_desc of
                 Inl e \<Rightarrow> Inl e
               | Inr fixed \<Rightarrow>
             (case group_exn code_match 1 of Inl e \<Rightarrow> Inl e | Inr g1 \<Rightarrow>
             (case group_exn code_match 2 of Inl e \<Rightarrow> Inl e | Inr g2 \<Rightarrow>
             (case group_exn code_match 3 of Inl e \<Rightarrow> Inl e | Inr g3 \<Rightarrow>
                Inr (Some \<lparr>s_name = fixed, s_alpha2 = g1, s_alpha3 = g2, s_numeric = g3\<rparr>))))))"

fun successors_loop :: "unicode_db \<Rightarrow> ustr \<Rightarrow> ustr \<Rightarrow> rmatch list \<Rightarrow> nat list \<Rightarrow> successor list \<Rightarrow> exn + successor list" where
  "successors_loop U successor_str raw_desc code_matches [] successors = Inr successors"
| "successors_loop U successor_str raw_desc code_matches (i # rest) successors =
     (case successor_of U successor_str raw_desc code_matches i of
        Inl e \<Rightarrow> Inl e
      | Inr None \<Rightarrow> successors_loop U successor_str raw_desc code_matches rest successors
      | Inr (Some s) \<Rightarrow>
          successors_loop U successor_str raw_desc code_matches rest (successors @ [s]))"

definition parse_successors :: "unicode_db \<Rightarrow> cell \<Rightarrow> ustr \<Rightarrow> exn + successor list" where
  "parse_successors U successor_str raw_desc =
     (case successor_str of
        None \<Rightarrow> Inr []
      | Some s \<Rightarrow>
          if s = [] then Inr []
          else (let code_matches = re_finditer U code_pattern s
                in if code_matches = [] then Inr []
                   else successors_loop U s raw_desc code_matches [0..<length code_matches] []))"

subsection \<open>\<^verbatim>\<open>determine_transition_type\<close>\<close>

definition determine_transition_type :: "unicode_db \<Rightarrow> cell \<Rightarrow> ustr" where
  "determine_transition_type U successor_str =
     (case successor_str of
        None \<Rightarrow> asc ''other''
      | Some s \<Rightarrow>
          if s = [] then asc ''other''
          else (let desc_lower = u_lower U s
                in if contains (asc ''merged into'') desc_lower then asc ''merged''
                   else if contains (asc ''name changed'') desc_lower then asc ''name_changed''
                   else if contains (asc ''divided into'') desc_lower
                           \<or> contains (asc ''split into'') desc_lower then asc ''divided''
                   else asc ''other''))"

section \<open>Record assembly and the run over the table\<close>

text \<open>
  A row of the table (\<^verbatim>\<open>pd.Series\<close>): a dictionary from column labels to cells;
  \<^verbatim>\<open>row.get(label, '')\<close> is the empty string for a column that the table does not have.
\<close>

type_synonym row = "string \<rightharpoonup> cell"

definition row_get :: "row \<Rightarrow> string \<Rightarrow> cell" where
  "row_get r label = (case r label of None \<Rightarrow> Some [] | Some c \<Rightarrow> c)"

record former_country =
  fc_name :: ustr
  fc_alpha2 :: "ustr option"
  fc_alpha3 :: "ustr option"
  fc_numeric :: "ustr option"
  iso_3166_3_alpha4 :: "ustr option"

record transition =
  t_type :: ustr
  t_successors :: "successor list"

record country =
  c_former_country :: former_country
  c_validity_period :: validity
  c_transition :: transition

definition process_record :: "unicode_db \<Rightarrow> row \<Rightarrow> exn + country" where
  "process_record U r =
     (let former_codes = parse_former_codes U (row_get r ''Former codes'')
      in case parse_validity_period U (row_get r ''Period of validity'') of
           Inl e \<Rightarrow> Inl e
         | Inr validity \<Rightarrow>
             (let raw_desc = py_str (row_get r ''New country names and codes'')
              in case parse_successors U (Some raw_desc) raw_desc of
                   Inl e \<Rightarrow> Inl e
                 | Inr successors \<Rightarrow>
                     (let transition_type = determine_transition_type U (Some raw_desc);
                          former_name = clean_country_name U (row_get r ''Former country name'');
                          code = py_strip U (py_str (row_get r ''ISO 3166-3 code''));
                          iso_3166_3_code = (if code = asc ''nan'' then None else Some code)
                      in Inr \<lparr>c_former_country =
                                \<lparr>fc_name = former_name, fc_alpha2 = alpha2 former_codes,
                                 fc_alpha3 = alpha3 former_codes,
                                 fc_numeric = numeric former_codes,
                                 iso_3166_3_alpha4 = iso_3166_3_code\<rparr>,
                              c_validity_period = validity,
                              c_transition =
                                \<lparr>t_type = transition_type, t_successors = successors\<rparr>\<rparr>)))"

text \<open>
  The loop of \<^verbatim>\<open>scrape_and_clean\<close> over \<^verbatim>\<open>df.iterrows()\<close>, with its \<^verbatim>\<open>try\<close>/\<^verbatim>\<open>except Exception\<close>
  around the call that processes a row. The call is the parameter \<open>process\<close>, so that the loop
  is described for whatever the call raises; an entry of \<open>errors\<close> is the row's index with the
  exception (the source formats the two into one text).
\<close>

fun rows_loop :: "('r \<Rightarrow> 'e + 'c) \<Rightarrow> (nat \<times> 'r) list \<Rightarrow> 'c list \<Rightarrow> (nat \<times> 'e) list \<Rightarrow> 'c list \<times> (nat \<times> 'e) list" where
  "rows_loop process [] clean_records errors = (clean_records, errors)"
| "rows_loop process ((idx, r) # rest) clean_records errors =
     (case process r of
        Inr record \<Rightarrow> rows_loop process rest (clean_records @ [record]) errors
      | Inl e \<Rightarrow> rows_loop process rest clean_records (errors @ [(idx, e)]))"

text \<open>\<^verbatim>\<open>df.iterrows()\<close> of a table that \<^verbatim>\<open>read_html\<close> built: the rows with their positions.\<close>

definition iterrows :: "'r list \<Rightarrow> (nat \<times> 'r) list" where
  "iterrows df = zip [0..<length df] df"

record metadata =
  title :: ustr
  description :: ustr
  source :: ustr
  standard :: ustr
  version :: ustr
  total_records :: nat
  last_updated :: ustr

record 'c dataset =
  d_metadata :: metadata
  d_countries :: "'c list"

definition url :: ustr where
  "url = asc ''https://en.wikipedia.org/wiki/ISO_3166-3''"

text \<open>
  \<^verbatim>\<open>scrape_and_clean\<close>. Its inputs are what \<^verbatim>\<open>fetch_table\<close> returns or raises, and the texts
  of the two clock readings \<^verbatim>\<open>datetime.now().strftime("%Y-%m")\<close> and
  \<^verbatim>\<open>datetime.now().strftime("%Y-%m-%d")\<close>. The result is the dataset together with the list
  \<open>errors\<close> that the run prints.
\<close>

definition scrape_with :: "('r \<Rightarrow> 'e + 'c) \<Rightarrow> 'e + 'r list \<Rightarrow> ustr \<Rightarrow> ustr \<Rightarrow> 'e + 'c dataset \<times> (nat \<times> 'e) list" where
  "scrape_with process fetched now_ym now_ymd =
     (case fetched of
        Inl e \<Rightarrow> Inl e
      | Inr df \<Rightarrow>
          (let (clean_records, errors) = rows_loop process (iterrows df) [] []
           in Inr (\<lparr>d_metadata =
                      \<lparr>title = asc ''ISO 3166-3: Formerly Used Country Codes'',
                       description = asc ''Codes for country names which have been deleted from ISO 3166-1 since its first publication in 1974'',
                       source = url,
                       standard = asc ''ISO 3166-3'',
                       version = now_ym,
                       total_records = length clean_records,
                       last_updated = now_ymd\<rparr>,
                    d_countries = clean_records\<rparr>, errors)))"

definition scrape_and_clean :: "unicode_db \<Rightarrow> exn + row list \<Rightarrow> ustr \<Rightarrow> ustr \<Rightarrow> exn + country dataset \<times> (nat \<times> exn) list" where
  "scrape_and_clean U = scrape_with (process_record U)"

section \<open>Notions of the specification\<close>

text \<open>The texts that a repetition \<^verbatim>\<open>k{lo,hi}\<close> accepts, \<open>P\<close> being the class \<open>k\<close>.\<close>

definition rep_ok :: "(cp \<Rightarrow> bool) \<Rightarrow> nat \<Rightarrow> nat option \<Rightarrow> ustr \<Rightarrow> bool" where
  "rep_ok P lo hi w =
     (list_all P w \<and> lo \<le> length w \<and> (case hi of None \<Rightarrow> True | Some h \<Rightarrow> length w \<le> h))"

text \<open>
  What a pattern matches, said without the engine: \<open>rx_matches U rx p w r g\<close> holds when the
  pattern matches the text \<open>w\<close> that starts at position \<open>p\<close> of the subject and is followed by
  \<open>r\<close>, capturing the groups \<open>g\<close>.
\<close>

fun rx_matches :: "unicode_db \<Rightarrow> rx \<Rightarrow> nat \<Rightarrow> ustr \<Rightarrow> ustr \<Rightarrow> ustr list \<Rightarrow> bool" where
  "rx_matches U (Lit v) p w r g = (w = v \<and> g = [])"
| "rx_matches U (LitI v) p w r g = (list_all2 (u_ieq U) v w \<and> g = [])"
| "rx_matches U (Cls k) p w r g = (\<exists>x. w = [x] \<and> in_cls U k x \<and> g = [])"
| "rx_matches U (Seq a b) p w r g =
     (\<exists>w1 w2 g1 g2. w = w1 @ w2 \<and> g = g1 @ g2 \<and> rx_matches U a p w1 (w2 @ r) g1
        \<and> rx_matches U b (p + length w1) w2 r g2)"
| "rx_matches U (Alt a b) p w r g = (rx_matches U a p w r g \<or> rx_matches U b p w r g)"
| "rx_matches U (Opt a) p w r g = (rx_matches U a p w r g \<or> (w = [] \<and> g = []))"
| "rx_matches U (Rep k lo hi) p w r g = (rep_ok (in_cls U k) lo hi w \<and> g = [])"
| "rx_matches U (RepLazy k lo hi) p w r g = (rep_ok (in_cls U k) lo hi w \<and> g = [])"
| "rx_matches U (Grp a) p w r g = (\<exists>g'. g = g' @ [w] \<and> rx_matches U a p w r g')"
| "rx_matches U Bol p w r g = (w = [] \<and> g = [] \<and> p = 0)"
| "rx_matches U Eol p w r g = (w = [] \<and> g = [] \<and> (r = [] \<or> r = [10]))"

text \<open>
  The prefix rule as the specification words it: the first phrase of the list that the text
  starts with is removed, and nothing more.
\<close>

definition strip_first_prefix :: "ustr \<Rightarrow> ustr" where
  "strip_first_prefix name =
     (case find (\<lambda>pre. prefix pre name) prefixes of
        None \<Rightarrow> name
      | Some pre \<Rightarrow> drop (length pre) name)"

text \<open>A text of decimal digits, and the number that \<^verbatim>\<open>int\<close> reads from it.\<close>

definition is_digits :: "unicode_db \<Rightarrow> ustr \<Rightarrow> bool" where
  "is_digits U w = list_all (\<lambda>c. u_decimal U c \<noteq> None) w"

definition digits_value :: "unicode_db \<Rightarrow> ustr \<Rightarrow> int" where
  "digits_value U w = foldl (\<lambda>a c. 10 * a + int (the (u_decimal U c))) 0 w"

text \<open>
  At index \<open>i\<close> of \<open>s\<close> there is an occurrence of the period pattern: four digits, an en-dash
  or a hyphen, four digits.
\<close>

definition period_at :: "unicode_db \<Rightarrow> ustr \<Rightarrow> nat \<Rightarrow> bool" where
  "period_at U s i =
     (i + 9 \<le> length s \<and> is_digits U (slice s i (i + 4)) \<and>
      (s ! (i + 4) = 8211 \<or> s ! (i + 4) = 45) \<and> is_digits U (slice s (i + 5) (i + 9)))"

text \<open>A text of uppercase letters \<^verbatim>\<open>A\<close> to \<^verbatim>\<open>Z\<close>.\<close>

definition is_upper :: "ustr \<Rightarrow> bool" where
  "is_upper w = list_all (\<lambda>c. 65 \<le> c \<and> c \<le> 90) w"

text \<open>A text holds an annotation marker: \<^verbatim>\<open>re.search\<close> finds the pattern of the markers in it.\<close>

definition has_marker :: "unicode_db \<Rightarrow> ustr \<Rightarrow> bool" where
  "has_marker U s = (re_search U note_pat s \<noteq> None)"

text \<open>Every \<^verbatim>\<open>[\<close> of the text (code point 91) is the first character of a marker.\<close>

fun brackets_open_markers :: "unicode_db \<Rightarrow> ustr \<Rightarrow> bool" where
  "brackets_open_markers U [] = True"
| "brackets_open_markers U (x # xs) =
     ((x \<noteq> 91 \<or> match_at U note_pat 0 (x # xs) \<noteq> None) \<and> brackets_open_markers U xs)"

text \<open>
  A phrase that ends in the suffix \<open>sfx\<close>: one or more word characters and blanks, then
  possibly a comma, then possibly blanks, then the suffix.
\<close>

definition is_phrase :: "unicode_db \<Rightarrow> ustr \<Rightarrow> ustr \<Rightarrow> bool" where
  "is_phrase U sfx w =
     (\<exists>a c b. w = a @ c @ b @ sfx \<and> a \<noteq> [] \<and>
        list_all (\<lambda>x. u_alnum U x \<or> x = 95 \<or> u_space U x) a \<and>
        (c = [] \<or> c = asc '','') \<and> list_all (u_space U) b)"

text \<open>
  An occurrence of the code-triplet pattern: \<open>w\<close> is an open parenthesis, two uppercase
  letters \<open>g1\<close>, a comma, blanks, two or three uppercase letters \<open>g2\<close>, a comma, blanks, three
  or four digits \<open>g3\<close>, a close parenthesis.
\<close>

definition is_triplet :: "unicode_db \<Rightarrow> ustr \<Rightarrow> ustr \<Rightarrow> ustr \<Rightarrow> ustr \<Rightarrow> bool" where
  "is_triplet U w g1 g2 g3 =
     (\<exists>w1 w2. w = asc ''('' @ g1 @ asc '','' @ w1 @ g2 @ asc '','' @ w2 @ g3 @ asc '')'' \<and>
        length g1 = 2 \<and> is_upper g1 \<and> list_all (u_space U) w1 \<and>
        (length g2 = 2 \<or> length g2 = 3) \<and> is_upper g2 \<and> list_all (u_space U) w2 \<and>
        (length g3 = 3 \<or> length g3 = 4) \<and> is_digits U g3)"

text \<open>
  The candidate name of the occurrence number \<open>i\<close> (from 0) of the list \<open>ms\<close>: what the loop
  body reads between the end of the occurrence before it, or the start of the string, and its
  own start. The successor of that occurrence: the candidate name repaired, and the three
  groups.
\<close>

definition candidate_name :: "unicode_db \<Rightarrow> ustr \<Rightarrow> rmatch list \<Rightarrow> nat \<Rightarrow> ustr" where
  "candidate_name U s ms i =
     country_name_between U s (if 0 < i then m_end (ms ! (i - 1)) else 0) (m_start (ms ! i))"

definition successor_at :: "unicode_db \<Rightarrow> ustr \<Rightarrow> ustr \<Rightarrow> rmatch list \<Rightarrow> nat \<Rightarrow> successor" where
  "successor_at U s raw ms i =
     \<lparr>s_name = projr (fix_incomplete_name U (candidate_name U s ms i) raw),
      s_alpha2 = m_groups (ms ! i) ! 0, s_alpha3 = m_groups (ms ! i) ! 1,
      s_numeric = m_groups (ms ! i) ! 2\<rparr>"

section \<open>Example data\<close>

text \<open>A row of the table as Wikipedia has it, and the record that the program makes of it.\<close>

definition burma_row :: row where
  "burma_row =
     [''Former country name'' \<mapsto> Some (asc ''Burma''),
      ''Former codes'' \<mapsto> Some (asc ''BU, BUR, 104''),
      ''Period of validity'' \<mapsto> Some (asc ''1974'' @ 8211 # asc ''1989''),
      ''ISO 3166-3 code'' \<mapsto> Some (asc ''BUMM''),
      ''New country names and codes'' \<mapsto>
        Some (asc ''Name changed to Myanmar (MM, MMR, 104)'')]"

definition burma_record :: country where
  "burma_record =
     \<lparr>c_former_country =
        \<lparr>fc_name = asc ''Burma'', fc_alpha2 = Some (asc ''BU''), fc_alpha3 = Some (asc ''BUR''),
         fc_numeric = Some (asc ''104''), iso_3166_3_alpha4 = Some (asc ''BUMM'')\<rparr>,
      c_validity_period = \<lparr>v_start = Some 1974, v_end = Some 1989\<rparr>,
      c_transition =
        \<lparr>t_type = asc ''name_changed'',
         t_successors =
           [\<lparr>s_name = asc ''Myanmar'', s_alpha2 = asc ''MM'', s_alpha3 = asc ''MMR'',
             s_numeric = asc ''104''\<rparr>]\<rparr>\<rparr>"

text \<open>A row procedure that raises on the odd rows, for runs in which rows fail.\<close>

definition odd_fails :: "nat \<Rightarrow> unit + nat" where
  "odd_fails n = (if odd n then Inl () else Inr (n div 2))"

section \<open>Basic facts\<close>

lemma ok_space: "unicode_ok U \<Longrightarrow> c < 128 \<Longrightarrow> u_space U c = ascii_space c"
  by (simp add: unicode_ok_def)

lemma ok_decimal: "unicode_ok U \<Longrightarrow> c < 128 \<Longrightarrow> u_decimal U c = ascii_decimal c"
  by (simp add: unicode_ok_def)

lemma ok_alnum: "unicode_ok U \<Longrightarrow> c < 128 \<Longrightarrow> u_alnum U c = ascii_alnum c"
  by (simp add: unicode_ok_def)

lemma ok_lower: "unicode_ok U \<Longrightarrow> is_ascii s \<Longrightarrow> u_lower U s = map ascii_lower s"
  by (simp add: unicode_ok_def)

lemma ok_ieq:
  "unicode_ok U \<Longrightarrow> a < 128 \<Longrightarrow> b < 128 \<Longrightarrow> u_ieq U a b = (ascii_lower a = ascii_lower b)"
  by (simp add: unicode_ok_def)

lemma unicode_ok_ascii_db: "unicode_ok ascii_db"
  by (simp add: unicode_ok_def ascii_db_def)

lemmas ok_simps =
  ok_space ok_decimal ok_alnum ok_lower ok_ieq
  ascii_space_def ascii_decimal_def ascii_alnum_def ascii_lower_def is_ascii_def

text \<open>The equations that evaluate the program on a given text.\<close>

lemmas prog_defs =
  asc_def py_strip_def py_split_def py_split_ws_def slice_def py_str_def
  match_at_def group_def re_match_def re_search_def re_finditer_def re_sub_def
  note_pat_def prefixes_def strip_prefix_def strip_prefixes_def clean_country_name_def
  alpha2_pat_def alpha3_pat_def numeric_pat_def assign_code_def no_codes_def code_parts_def
  parse_former_codes_def period_pat_def py_int_def group_exn_def no_period_def
  parse_validity_period_def phrase_pat_def patterns_def trailing_codes_pat_def
  fix_incomplete_name_def code_pattern_def keyword_pat_def country_name_between_def
  determine_transition_type_def

lemma asc_Nil_iff [simp]: "asc s = [] \<longleftrightarrow> s = []"
  by (simp add: asc_def)

lemma length_asc [simp]: "length (asc s) = length s"
  by (simp add: asc_def)

lemma contains_iff_sublist: "contains w s = sublist w s"
  by (induction s) (simp_all add: sublist_Cons_right)

section \<open>The matcher and what a pattern matches\<close>

lemma rep_ok_Nil: "rep_ok P lo hi [] \<longleftrightarrow> lo = 0"
  by (simp add: rep_ok_def split: option.splits)

lemma rep_ok_Cons:
  "rep_ok P lo hi (x # w) \<longleftrightarrow> hi \<noteq> Some 0 \<and> P x \<and> rep_ok P (lo - 1) (map_option (\<lambda>h. h - 1) hi) w"
  by (cases hi) (auto simp: rep_ok_def)

lemma greedy_iff:
  "st \<in> set (greedy P lo hi (p, r, c)) \<longleftrightarrow>
     (\<exists>w r'. st = (p + length w, r', c) \<and> r = w @ r' \<and> rep_ok P lo hi w)"
proof (induction r arbitrary: lo hi p)
  case Nil
  show ?case by (auto simp: rep_ok_Nil)
next
  case (Cons x xs)
  have "(\<exists>w r'. st = (p + length w, r', c) \<and> x # xs = w @ r' \<and> rep_ok P lo hi w) \<longleftrightarrow>
        (st = (p, x # xs, c) \<and> lo = 0) \<or>
        (\<exists>w r'. st = (Suc p + length w, r', c) \<and> xs = w @ r' \<and> rep_ok P lo hi (x # w))"
    (is "?L \<longleftrightarrow> ?A \<or> ?B")
  proof
    assume ?L
    then obtain w r' where h: "st = (p + length w, r', c)" "x # xs = w @ r'" "rep_ok P lo hi w"
      by blast
    show "?A \<or> ?B"
    proof (cases w)
      case Nil
      with h show ?thesis by (simp add: rep_ok_Nil)
    next
      case (Cons y w')
      with h show ?thesis by auto
    qed
  next
    assume "?A \<or> ?B"
    then show ?L
    proof
      assume ?A
      then have "st = (p + length ([]::ustr), x # xs, c) \<and> x # xs = [] @ (x # xs) \<and> rep_ok P lo hi []"
        by (simp add: rep_ok_Nil)
      then show ?L by blast
    next
      assume ?B
      then obtain w r' where "st = (Suc p + length w, r', c)" "xs = w @ r'" "rep_ok P lo hi (x # w)"
        by blast
      then have "st = (p + length (x # w), r', c) \<and> x # xs = (x # w) @ r' \<and> rep_ok P lo hi (x # w)"
        by simp
      then show ?L by blast
    qed
  qed
  then show ?case
    using Cons.IH [of "lo - 1" "map_option (\<lambda>h. h - 1) hi" "Suc p"]
    by (auto simp: rep_ok_Cons)
qed

lemma lazy_iff:
  "st \<in> set (lazy P lo hi (p, r, c)) \<longleftrightarrow>
     (\<exists>w r'. st = (p + length w, r', c) \<and> r = w @ r' \<and> rep_ok P lo hi w)"
proof (induction r arbitrary: lo hi p)
  case Nil
  show ?case by (auto simp: rep_ok_Nil)
next
  case (Cons x xs)
  have "(\<exists>w r'. st = (p + length w, r', c) \<and> x # xs = w @ r' \<and> rep_ok P lo hi w) \<longleftrightarrow>
        (st = (p, x # xs, c) \<and> lo = 0) \<or>
        (\<exists>w r'. st = (Suc p + length w, r', c) \<and> xs = w @ r' \<and> rep_ok P lo hi (x # w))"
    (is "?L \<longleftrightarrow> ?A \<or> ?B")
  proof
    assume ?L
    then obtain w r' where h: "st = (p + length w, r', c)" "x # xs = w @ r'" "rep_ok P lo hi w"
      by blast
    show "?A \<or> ?B"
    proof (cases w)
      case Nil
      with h show ?thesis by (simp add: rep_ok_Nil)
    next
      case (Cons y w')
      with h show ?thesis by auto
    qed
  next
    assume "?A \<or> ?B"
    then show ?L
    proof
      assume ?A
      then have "st = (p + length ([]::ustr), x # xs, c) \<and> x # xs = [] @ (x # xs) \<and> rep_ok P lo hi []"
        by (simp add: rep_ok_Nil)
      then show ?L by blast
    next
      assume ?B
      then obtain w r' where "st = (Suc p + length w, r', c)" "xs = w @ r'" "rep_ok P lo hi (x # w)"
        by blast
      then have "st = (p + length (x # w), r', c) \<and> x # xs = (x # w) @ r' \<and> rep_ok P lo hi (x # w)"
        by simp
      then show ?L by blast
    qed
  qed
  then show ?case
    using Cons.IH [of "lo - 1" "map_option (\<lambda>h. h - 1) hi" "Suc p"]
    by (auto simp: rep_ok_Cons)
qed

lemma rxm_iff:
  "st \<in> set (rxm U rx (p, s, c)) \<longleftrightarrow>
     (\<exists>w r g. st = (p + length w, r, c @ g) \<and> s = w @ r \<and> rx_matches U rx p w r g)"
proof (induction rx arbitrary: st p s c)
  case (Lit v)
  show ?case by (auto simp: prefix_def)
next
  case (LitI v)
  show ?case
  proof
    assume "st \<in> set (rxm U (LitI v) (p, s, c))"
    then have h: "length v \<le> length s" "list_all2 (u_ieq U) v (take (length v) s)"
      "st = (p + length v, drop (length v) s, c)"
      by (auto split: if_splits)
    then have "st = (p + length (take (length v) s), drop (length v) s, c @ []) \<and>
      s = take (length v) s @ drop (length v) s \<and>
      rx_matches U (LitI v) p (take (length v) s) (drop (length v) s) []"
      by simp
    then show "\<exists>w r g. st = (p + length w, r, c @ g) \<and> s = w @ r \<and> rx_matches U (LitI v) p w r g"
      by blast
  next
    assume "\<exists>w r g. st = (p + length w, r, c @ g) \<and> s = w @ r \<and> rx_matches U (LitI v) p w r g"
    then obtain w r where h: "st = (p + length w, r, c)" "s = w @ r" "list_all2 (u_ieq U) v w"
      by auto
    from h(3) have "length v = length w" by (rule list_all2_lengthD)
    with h show "st \<in> set (rxm U (LitI v) (p, s, c))" by simp
  qed
next
  case (Cls k)
  show ?case by (cases s) auto
next
  case (Seq a b)
  show ?case
  proof
    assume "st \<in> set (rxm U (Seq a b) (p, s, c))"
    then obtain st1 where st1: "st1 \<in> set (rxm U a (p, s, c))" "st \<in> set (rxm U b st1)"
      by auto
    from st1(1) obtain w1 r1 g1 where a: "st1 = (p + length w1, r1, c @ g1)" "s = w1 @ r1"
      "rx_matches U a p w1 r1 g1"
      using Seq.IH(1) by blast
    from st1(2) a(1) obtain w2 r g2 where b: "st = (p + length w1 + length w2, r, (c @ g1) @ g2)"
      "r1 = w2 @ r" "rx_matches U b (p + length w1) w2 r g2"
      using Seq.IH(2) by blast
    have "st = (p + length (w1 @ w2), r, c @ (g1 @ g2)) \<and> s = (w1 @ w2) @ r \<and>
      rx_matches U (Seq a b) p (w1 @ w2) r (g1 @ g2)"
      using a b by auto
    then show "\<exists>w r g. st = (p + length w, r, c @ g) \<and> s = w @ r \<and> rx_matches U (Seq a b) p w r g"
      by blast
  next
    assume "\<exists>w r g. st = (p + length w, r, c @ g) \<and> s = w @ r \<and> rx_matches U (Seq a b) p w r g"
    then obtain w1 w2 r g1 g2 where h: "st = (p + length (w1 @ w2), r, c @ g1 @ g2)"
      "s = (w1 @ w2) @ r" "rx_matches U a p w1 (w2 @ r) g1"
      "rx_matches U b (p + length w1) w2 r g2"
      by auto
    have 1: "(p + length w1, w2 @ r, c @ g1) \<in> set (rxm U a (p, s, c))"
      using h(2,3) Seq.IH(1) by auto
    have 2: "st \<in> set (rxm U b (p + length w1, w2 @ r, c @ g1))"
      using h(1,4) Seq.IH(2) [of st "p + length w1" "w2 @ r" "c @ g1"] by auto
    from 1 2 show "st \<in> set (rxm U (Seq a b) (p, s, c))"
      by auto
  qed
next
  case (Alt a b)
  show ?case using Alt.IH by auto
next
  case (Opt a)
  show ?case using Opt.IH by auto
next
  case (Rep k lo hi)
  show ?case by (auto simp: greedy_iff)
next
  case (RepLazy k lo hi)
  show ?case by (auto simp: lazy_iff)
next
  case (Grp a)
  show ?case
  proof
    assume "st \<in> set (rxm U (Grp a) (p, s, c))"
    then obtain p' r' c' where h: "(p', r', c') \<in> set (rxm U a (p, s, c))"
      "st = (p', r', c' @ [take (p' - p) s])"
      by auto
    from h(1) have "\<exists>w r g. (p', r', c') = (p + length w, r, c @ g) \<and> s = w @ r \<and> rx_matches U a p w r g"
      by (simp only: Grp.IH)
    then obtain w g where a: "p' = p + length w" "c' = c @ g" "s = w @ r'"
      "rx_matches U a p w r' g"
      by auto
    have "st = (p + length w, r', c @ (g @ [w])) \<and> s = w @ r' \<and> rx_matches U (Grp a) p w r' (g @ [w])"
      using h(2) a by simp
    then show "\<exists>w r g. st = (p + length w, r, c @ g) \<and> s = w @ r \<and> rx_matches U (Grp a) p w r g"
      by blast
  next
    assume "\<exists>w r g. st = (p + length w, r, c @ g) \<and> s = w @ r \<and> rx_matches U (Grp a) p w r g"
    then obtain w r g' where h: "st = (p + length w, r, c @ g' @ [w])" "s = w @ r"
      "rx_matches U a p w r g'"
      by auto
    have "(p + length w, r, c @ g') \<in> set (rxm U a (p, s, c))"
      unfolding Grp.IH using h(2,3) by auto
    then have "(\<lambda>(p', r', c'). (p', r', c' @ [take (p' - p) s])) (p + length w, r, c @ g')
        \<in> set (rxm U (Grp a) (p, s, c))"
      by (simp only: rxm.simps set_map) (rule imageI)
    then show "st \<in> set (rxm U (Grp a) (p, s, c))"
      using h(1,2) by simp
  qed
next
  case Bol
  show ?case by auto
next
  case Eol
  show ?case by auto
qed

lemma match_at_None_iff:
  "match_at U rx p s = None \<longleftrightarrow> (\<forall>w r g. s = w @ r \<longrightarrow> \<not> rx_matches U rx p w r g)"
proof -
  have "match_at U rx p s = None \<longleftrightarrow> set (rxm U rx (p, s, [])) = {}"
    by (auto simp: match_at_def split: list.splits)
  also have "\<dots> \<longleftrightarrow> (\<forall>st. st \<notin> set (rxm U rx (p, s, [])))"
    by auto
  also have "\<dots> \<longleftrightarrow> (\<forall>w r g. s = w @ r \<longrightarrow> \<not> rx_matches U rx p w r g)"
    unfolding rxm_iff by auto
  finally show ?thesis .
qed

lemma match_at_Some:
  assumes "match_at U rx p s = Some (m, s')"
  shows "\<exists>w g. s = w @ s' \<and> m = \<lparr>m_start = p, m_end = p + length w, m_groups = g\<rparr>
           \<and> rx_matches U rx p w s' g"
proof -
  from assms obtain p' c rest where l: "rxm U rx (p, s, []) = (p', s', c) # rest"
    and m: "m = \<lparr>m_start = p, m_end = p', m_groups = c\<rparr>"
    by (auto simp: match_at_def split: list.splits)
  from l have "(p', s', c) \<in> set (rxm U rx (p, s, []))" by simp
  then have "\<exists>w r g. (p', s', c) = (p + length w, r, [] @ g) \<and> s = w @ r \<and> rx_matches U rx p w r g"
    by (simp only: rxm_iff)
  then obtain w where "p' = p + length w" "s = w @ s'" "rx_matches U rx p w s' c"
    by auto
  with m show ?thesis by blast
qed

text \<open>When a pattern can match in one way only, the match is that one.\<close>

lemma match_at_unique:
  assumes "s = w @ s'" "rx_matches U rx p w s' g"
    and "\<And>w1 r1 g1. s = w1 @ r1 \<Longrightarrow> rx_matches U rx p w1 r1 g1 \<Longrightarrow> w1 = w \<and> g1 = g"
  shows "match_at U rx p s = Some (\<lparr>m_start = p, m_end = p + length w, m_groups = g\<rparr>, s')"
proof (cases "match_at U rx p s")
  case None
  with assms(1,2) show ?thesis by (simp add: match_at_None_iff)
next
  case (Some a)
  obtain m r where a: "a = (m, r)" by (cases a)
  from match_at_Some [OF Some [unfolded a]]
  obtain w1 g1 where h: "s = w1 @ r" "m = \<lparr>m_start = p, m_end = p + length w1, m_groups = g1\<rparr>"
    "rx_matches U rx p w1 r g1"
    by blast
  from assms(3) [OF h(1) h(3)] have "w1 = w" "g1 = g" by simp_all
  with h assms(1) Some a show ?thesis by simp
qed

lemma search_from_None_iff:
  "search_from U rx p s = None \<longleftrightarrow> (\<forall>i\<le>length s. match_at U rx (p + i) (drop i s) = None)"
proof (induction s arbitrary: p)
  case Nil
  show ?case by simp
next
  case (Cons x xs)
  have "(\<forall>i\<le>length (x # xs). match_at U rx (p + i) (drop i (x # xs)) = None) \<longleftrightarrow>
        match_at U rx p (x # xs) = None \<and>
        (\<forall>i\<le>length xs. match_at U rx (Suc p + i) (drop i xs) = None)"
    (is "?L \<longleftrightarrow> ?R")
  proof
    assume l: ?L
    have "match_at U rx (p + 0) (drop 0 (x # xs)) = None"
      using l by blast
    moreover have "match_at U rx (Suc p + i) (drop i xs) = None" if "i \<le> length xs" for i
      using l [rule_format, of "Suc i"] that by simp
    ultimately show ?R by simp
  next
    assume r: ?R
    show ?L
    proof (intro allI impI)
      fix i assume "i \<le> length (x # xs)"
      then show "match_at U rx (p + i) (drop i (x # xs)) = None"
        using r by (cases i) auto
    qed
  qed
  then show ?case
    using Cons.IH [of "Suc p"] by (auto split: option.splits)
qed

lemma search_from_Some:
  assumes "search_from U rx p s = Some m"
  shows "\<exists>i s'. i \<le> length s \<and> match_at U rx (p + i) (drop i s) = Some (m, s') \<and>
           (\<forall>j<i. match_at U rx (p + j) (drop j s) = None)"
  using assms
proof (induction s arbitrary: p)
  case Nil
  then obtain s' where "match_at U rx p [] = Some (m, s')" by auto
  then have "0 \<le> length ([]::ustr) \<and> match_at U rx (p + 0) (drop 0 []) = Some (m, s') \<and>
      (\<forall>j<0. match_at U rx (p + j) (drop j []) = None)"
    by simp
  then show ?case by blast
next
  case (Cons x xs)
  show ?case
  proof (cases "match_at U rx p (x # xs)")
    case None
    with Cons.prems have "search_from U rx (Suc p) xs = Some m" by simp
    from Cons.IH [OF this] obtain i s' where h: "i \<le> length xs"
      "match_at U rx (Suc p + i) (drop i xs) = Some (m, s')"
      "\<forall>j<i. match_at U rx (Suc p + j) (drop j xs) = None"
      by blast
    have "\<forall>j<Suc i. match_at U rx (p + j) (drop j (x # xs)) = None"
    proof (intro allI impI)
      fix j assume "j < Suc i"
      then show "match_at U rx (p + j) (drop j (x # xs)) = None"
        using None h(3) by (cases j) auto
    qed
    with h(1,2) have "Suc i \<le> length (x # xs) \<and>
        match_at U rx (p + Suc i) (drop (Suc i) (x # xs)) = Some (m, s') \<and>
        (\<forall>j<Suc i. match_at U rx (p + j) (drop j (x # xs)) = None)"
      by simp
    then show ?thesis by blast
  next
    case (Some a)
    with Cons.prems obtain s' where "match_at U rx p (x # xs) = Some (m, s')"
      by (cases a) auto
    then have "0 \<le> length (x # xs) \<and>
        match_at U rx (p + 0) (drop 0 (x # xs)) = Some (m, s') \<and>
        (\<forall>j<0. match_at U rx (p + j) (drop j (x # xs)) = None)"
      by simp
    then show ?thesis by blast
  qed
qed

lemma search_from_first:
  assumes "i \<le> length s" "match_at U rx (p + i) (drop i s) = Some (m, s')"
    "\<forall>j<i. match_at U rx (p + j) (drop j s) = None"
  shows "search_from U rx p s = Some m"
proof (cases "search_from U rx p s")
  case None
  with assms(1,2) show ?thesis by (simp add: search_from_None_iff)
next
  case (Some m')
  from search_from_Some [OF Some] obtain k t where h: "k \<le> length s"
    "match_at U rx (p + k) (drop k s) = Some (m', t)"
    "\<forall>j<k. match_at U rx (p + j) (drop j s) = None"
    by blast
  have "k = i"
  proof (rule ccontr)
    assume "k \<noteq> i"
    then consider "k < i" | "i < k" by linarith
    then show False
    proof cases
      case 1
      with assms(3) h(2) show False by simp
    next
      case 2
      with h(3) assms(2) show False by simp
    qed
  qed
  with h(2) assms(2) Some show ?thesis by simp
qed

lemma in_cls_Digit: "in_cls U Digit = (\<lambda>c. u_decimal U c \<noteq> None)"
  by (rule ext) simp

lemma rep_ok_exact: "rep_ok P n (Some n) w \<longleftrightarrow> length w = n \<and> list_all P w"
  by (auto simp: rep_ok_def)

lemma all_less_upt: "list_all P [0..<n] \<Longrightarrow> \<forall>j<n. P j"
  by (simp add: list_all_iff)

lemma in_cls_Word_Space:
  "in_cls U (Union Word Space) = (\<lambda>x. u_alnum U x \<or> x = 95 \<or> u_space U x)"
  by (rule ext) auto

lemma in_cls_Space: "in_cls U Space = u_space U"
  by (rule ext) simp

lemma rep_ok_star: "rep_ok P 0 None w \<longleftrightarrow> list_all P w"
  by (simp add: rep_ok_def)

lemma rep_ok_plus: "rep_ok P (Suc 0) None w \<longleftrightarrow> w \<noteq> [] \<and> list_all P w"
  by (auto simp: rep_ok_def Suc_le_eq)

lemma sub_from_identity:
  "(\<And>p r. suffix r t \<Longrightarrow> match_at U rx p r = None) \<Longrightarrow> sub_from U rx q t = t"
proof (induction t arbitrary: q)
  case Nil
  show ?case by simp
next
  case (Cons x xs)
  have "match_at U rx q (x # xs) = None"
    using Cons.prems [of "x # xs" q] by simp
  moreover have "sub_from U rx (Suc q) xs = xs"
  proof (rule Cons.IH)
    fix p r assume "suffix r xs"
    then have "suffix r (x # xs)" by (simp add: suffix_Cons)
    then show "match_at U rx p r = None" by (rule Cons.prems)
  qed
  ultimately show ?case by simp
qed

section \<open>The run over the table\<close>

lemma rows_loop_eq:
  "rows_loop process xs recs errs =
     (recs @ map projr (filter (\<lambda>x. \<not> isl x) (map (\<lambda>(i, r). process r) xs)),
      errs @ [(i, projl (process r)). (i, r) \<leftarrow> xs, isl (process r)])"
proof (induction xs arbitrary: recs errs)
  case Nil
  show ?case by simp
next
  case (Cons x xs)
  obtain i r where x: "x = (i, r)" by (cases x)
  show ?case
    by (cases "process r") (simp_all add: x Cons.IH)
qed

lemma map_process_iterrows: "map (\<lambda>(i, r). process r) (iterrows df) = map process df"
proof -
  have "map (\<lambda>(i, r). process r) (iterrows df) = map process (map snd (iterrows df))"
    by (simp add: case_prod_beta comp_def)
  then show ?thesis by (simp add: iterrows_def)
qed

lemma scrape_with_eq:
  "scrape_with process (Inr df) ym ymd =
     Inr (\<lparr>d_metadata =
             \<lparr>title = asc ''ISO 3166-3: Formerly Used Country Codes'',
              description = asc ''Codes for country names which have been deleted from ISO 3166-1 since its first publication in 1974'',
              source = url, standard = asc ''ISO 3166-3'', version = ym,
              total_records = length (filter (\<lambda>x. \<not> isl x) (map process df)),
              last_updated = ymd\<rparr>,
           d_countries = map projr (filter (\<lambda>x. \<not> isl x) (map process df))\<rparr>,
          [(i, projl (process r)). (i, r) \<leftarrow> iterrows df, isl (process r)])"
  by (simp add: scrape_with_def rows_loop_eq map_process_iterrows)

lemma in_iterrows: "(i, r) \<in> set (iterrows df) \<longleftrightarrow> i < length df \<and> r = df ! i"
  by (force simp: iterrows_def set_zip)

lemma set_failures:
  "set [(i, projl (process r)). (i, r) \<leftarrow> iterrows df, isl (process r)] =
     {(i, e). i < length df \<and> process (df ! i) = Inl e}"
proof -
  have "(i, e) \<in> set [(i, projl (process r)). (i, r) \<leftarrow> iterrows df, isl (process r)]
      \<longleftrightarrow> i < length df \<and> process (df ! i) = Inl e" for i e
  proof -
    have "(i, e) \<in> set [(i, projl (process r)). (i, r) \<leftarrow> iterrows df, isl (process r)]
        \<longleftrightarrow> (\<exists>r. (i, r) \<in> set (iterrows df) \<and> isl (process r) \<and> e = projl (process r))"
      by auto
    also have "\<dots> \<longleftrightarrow> (i < length df \<and> isl (process (df ! i)) \<and> e = projl (process (df ! i)))"
      by (simp add: in_iterrows)
    also have "\<dots> \<longleftrightarrow> (i < length df \<and> process (df ! i) = Inl e)"
      by (cases "process (df ! i)") auto
    finally show ?thesis .
  qed
  then show ?thesis by auto
qed

lemma length_split_isl:
  "length (filter (\<lambda>x. \<not> isl x) xs) + length (filter isl xs) = length xs"
  by (induction xs) auto

lemma length_failures_gen:
  "length [(i, projl (process r)). (i, r) \<leftarrow> xs, isl (process r)]
     = length (filter isl (map process (map snd xs)))"
  by (induction xs) auto

lemma length_failures:
  "length [(i, projl (process r)). (i, r) \<leftarrow> iterrows df, isl (process r)]
     = length (filter isl (map process df))"
proof -
  have h: "map snd (iterrows df) = df"
    by (simp add: iterrows_def)
  show ?thesis
    unfolding length_failures_gen [of process "iterrows df"] by (simp only: h)
qed

lemma scrape_with_total_records:
  assumes "scrape_with process fetched now_ym now_ymd = Inr (ds, errors)"
  shows "total_records (d_metadata ds) = length (d_countries ds)"
proof (cases fetched)
  case (Inl x)
  with assms show ?thesis by (simp add: scrape_with_def)
next
  case (Inr df)
  with assms show ?thesis by (auto simp: scrape_with_eq)
qed

text \<open>
  C8. A row whose processing raises is caught: the run over a fetched table always returns a
  dataset; its countries are the results of the rows that were processed without an
  exception, in the order of the table; the list of errors holds, for each row that raised,
  the position of the row with the exception; every row is in one of the two.
\<close>

theorem row_failures_are_skipped:
  "\<exists>ds errors.
     scrape_with process (Inr df) now_ym now_ymd = Inr (ds, errors) \<and>
     d_countries ds = map projr (filter (\<lambda>x. \<not> isl x) (map process df)) \<and>
     errors = [(i, projl (process r)). (i, r) \<leftarrow> iterrows df, isl (process r)] \<and>
     set errors = {(i, e). i < length df \<and> process (df ! i) = Inl e} \<and>
     length (d_countries ds) + length errors = length df"
  using length_split_isl [of "map process df"]
  by (simp add: scrape_with_eq set_failures length_failures del: set_concat)

theorem row_failures_are_skipped_witness:
  "scrape_with odd_fails (Inr [4, 7, 10, 3]) [] [] =
     Inr (\<lparr>d_metadata =
             \<lparr>title = asc ''ISO 3166-3: Formerly Used Country Codes'',
              description = asc ''Codes for country names which have been deleted from ISO 3166-1 since its first publication in 1974'',
              source = url, standard = asc ''ISO 3166-3'', version = [],
              total_records = 2, last_updated = []\<rparr>,
           d_countries = [2, 5]\<rparr>, [(1, ()), (3, ())])"
  using row_failures_are_skipped [of odd_fails "[4, 7, 10, 3]" "[]" "[]"]
  by (simp add: scrape_with_eq iterrows_def odd_fails_def)

text \<open>
  C10. In the dataset of every run, \<open>total_records\<close> is the number of countries, whatever the
  row procedure raises on; \<open>scrape_and_clean\<close> is the run with the program's row procedure.
\<close>

theorem total_records_is_length:
  "(scrape_with process fetched now_ym now_ymd = Inr (ds, errors) \<longrightarrow>
      total_records (d_metadata ds) = length (d_countries ds)) \<and>
   (scrape_and_clean U fetched' now_ym' now_ymd' = Inr (ds', errors') \<longrightarrow>
      total_records (d_metadata ds') = length (d_countries ds'))"
  unfolding scrape_and_clean_def by (blast intro: scrape_with_total_records)

theorem total_records_is_length_witness:
  "scrape_with odd_fails (Inr [3, 6, 8, 5, 2]) [] [] =
     Inr (\<lparr>d_metadata =
             \<lparr>title = asc ''ISO 3166-3: Formerly Used Country Codes'',
              description = asc ''Codes for country names which have been deleted from ISO 3166-1 since its first publication in 1974'',
              source = url, standard = asc ''ISO 3166-3'', version = [],
              total_records = 3, last_updated = []\<rparr>,
           d_countries = [3, 4, 1]\<rparr>, [(0, ()), (3, ())]) \<and>
   total_records (d_metadata (fst (projr (scrape_with odd_fails (Inr [3, 6, 8, 5, 2]) [] [])))) =
     length (d_countries (fst (projr (scrape_with odd_fails (Inr [3, 6, 8, 5, 2]) [] []))))"
proof -
  let ?run = "scrape_with odd_fails (Inr [3, 6, 8, 5, 2]) [] []"
  have run: "?run =
     Inr (\<lparr>d_metadata =
             \<lparr>title = asc ''ISO 3166-3: Formerly Used Country Codes'',
              description = asc ''Codes for country names which have been deleted from ISO 3166-1 since its first publication in 1974'',
              source = url, standard = asc ''ISO 3166-3'', version = [],
              total_records = 3, last_updated = []\<rparr>,
           d_countries = [3, 4, 1]\<rparr>, [(0, ()), (3, ())])"
    by (simp add: scrape_with_eq iterrows_def odd_fails_def)
  have "?run = Inr (fst (projr ?run), snd (projr ?run))"
    by (simp add: run)
  from total_records_is_length [THEN conjunct1, rule_format, OF this]
  have "total_records (d_metadata (fst (projr ?run))) = length (d_countries (fst (projr ?run)))" .
  with run show ?thesis by simp
qed

section \<open>The example row\<close>

lemma burma_codes:
  "unicode_ok U \<Longrightarrow> parse_former_codes U (Some (asc ''BU, BUR, 104'')) =
     \<lparr>alpha2 = Some (asc ''BU''), alpha3 = Some (asc ''BUR''), numeric = Some (asc ''104'')\<rparr>"
  by (simp add: prog_defs ok_simps)

lemma burma_period:
  "unicode_ok U \<Longrightarrow> parse_validity_period U (Some (asc ''1974'' @ 8211 # asc ''1989'')) =
     Inr \<lparr>v_start = Some 1974, v_end = Some 1989\<rparr>"
  by (simp add: prog_defs ok_simps)

lemma burma_matches:
  "unicode_ok U \<Longrightarrow>
   re_finditer U code_pattern (asc ''Name changed to Myanmar (MM, MMR, 104)'') =
     [\<lparr>m_start = 24, m_end = 38, m_groups = [asc ''MM'', asc ''MMR'', asc ''104'']\<rparr>]"
  by (simp add: prog_defs ok_simps)

lemma burma_between:
  "unicode_ok U \<Longrightarrow>
   country_name_between U (asc ''Name changed to Myanmar (MM, MMR, 104)'') 0 24 = asc ''Myanmar''"
  by (simp add: prog_defs ok_simps Let_def)

lemma burma_fix:
  "unicode_ok U \<Longrightarrow>
   fix_incomplete_name U (asc ''Myanmar'') (asc ''Name changed to Myanmar (MM, MMR, 104)'') =
     Inr (asc ''Myanmar'')"
  by (simp add: prog_defs ok_simps)

lemma burma_successors:
  "unicode_ok U \<Longrightarrow>
   parse_successors U (Some (asc ''Name changed to Myanmar (MM, MMR, 104)''))
       (asc ''Name changed to Myanmar (MM, MMR, 104)'') =
     Inr [\<lparr>s_name = asc ''Myanmar'', s_alpha2 = asc ''MM'', s_alpha3 = asc ''MMR'',
           s_numeric = asc ''104''\<rparr>]"
  by (simp add: parse_successors_def successor_of_def Let_def burma_matches burma_between
      burma_fix group_exn_def group_def)

lemma burma_type:
  "unicode_ok U \<Longrightarrow>
   determine_transition_type U (Some (asc ''Name changed to Myanmar (MM, MMR, 104)'')) =
     asc ''name_changed''"
  by (simp add: prog_defs ok_simps)

lemma burma_name: "unicode_ok U \<Longrightarrow> clean_country_name U (Some (asc ''Burma'')) = asc ''Burma''"
  by (simp add: prog_defs ok_simps)

lemma burma_code:
  "unicode_ok U \<Longrightarrow> py_strip U (asc ''BUMM'') = asc ''BUMM'' \<and> asc ''BUMM'' \<noteq> asc ''nan''"
  by (simp add: prog_defs ok_simps)

lemma process_burma_row: "unicode_ok U \<Longrightarrow> process_record U burma_row = Inr burma_record"
  by (simp add: process_record_def row_get_def burma_row_def burma_record_def py_str_def Let_def
      burma_codes burma_period burma_successors burma_type burma_name burma_code)

text \<open>
  C9. Two runs on the same fetched table differ in the two clock fields only: when a run with
  the clock texts \<open>ym1\<close>, \<open>ymd1\<close> yields a dataset, the run with \<open>ym2\<close>, \<open>ymd2\<close> yields the same
  dataset with \<open>version\<close> and \<open>last_updated\<close> replaced, hence the same countries and the same
  \<open>total_records\<close>, and the same list of errors.
\<close>

theorem rerun_changes_clock_fields_only:
  assumes "scrape_and_clean U fetched ym1 ymd1 = Inr (ds1, errors1)"
  shows "\<exists>ds2. scrape_and_clean U fetched ym2 ymd2 = Inr (ds2, errors1) \<and>
           ds2 = ds1\<lparr>d_metadata := (d_metadata ds1)\<lparr>version := ym2, last_updated := ymd2\<rparr>\<rparr> \<and>
           d_countries ds2 = d_countries ds1 \<and>
           total_records (d_metadata ds2) = total_records (d_metadata ds1)"
proof (cases fetched)
  case (Inl e)
  with assms show ?thesis by (simp add: scrape_and_clean_def scrape_with_def)
next
  case (Inr df)
  with assms show ?thesis by (auto simp: scrape_and_clean_def scrape_with_eq)
qed

theorem rerun_changes_clock_fields_only_witness:
  "scrape_and_clean ascii_db (Inr [burma_row]) (asc ''2026-02'') (asc ''2026-02-01'') =
     Inr (\<lparr>d_metadata =
             \<lparr>title = asc ''ISO 3166-3: Formerly Used Country Codes'',
              description = asc ''Codes for country names which have been deleted from ISO 3166-1 since its first publication in 1974'',
              source = url, standard = asc ''ISO 3166-3'', version = asc ''2026-02'',
              total_records = 1, last_updated = asc ''2026-02-01''\<rparr>,
           d_countries = [burma_record]\<rparr>, [])"
proof -
  have first_run:
    "scrape_and_clean ascii_db (Inr [burma_row]) (asc ''2024-11'') (asc ''2024-11-30'') =
     Inr (\<lparr>d_metadata =
             \<lparr>title = asc ''ISO 3166-3: Formerly Used Country Codes'',
              description = asc ''Codes for country names which have been deleted from ISO 3166-1 since its first publication in 1974'',
              source = url, standard = asc ''ISO 3166-3'', version = asc ''2024-11'',
              total_records = 1, last_updated = asc ''2024-11-30''\<rparr>,
           d_countries = [burma_record]\<rparr>, [])"
    by (simp add: scrape_and_clean_def scrape_with_eq iterrows_def
        process_burma_row [OF unicode_ok_ascii_db])
  show ?thesis
    using rerun_changes_clock_fields_only [OF first_run, of "asc ''2026-02''" "asc ''2026-02-01''"]
    by auto
qed

section \<open>\<^verbatim>\<open>determine_transition_type\<close>\<close>

text \<open>
  C7. The transition type is decided on the lower-cased text, in the order merged,
  name changed, divided or split, other; an absent and an empty text are other. The two
  examples of the specification.
\<close>

theorem classify_priority:
  assumes "unicode_ok U"
  shows "determine_transition_type U None = asc ''other'' \<and>
         determine_transition_type U (Some []) = asc ''other'' \<and>
         determine_transition_type U (Some s) =
           (if sublist (asc ''merged into'') (u_lower U s) then asc ''merged''
            else if sublist (asc ''name changed'') (u_lower U s) then asc ''name_changed''
            else if sublist (asc ''divided into'') (u_lower U s)
                    \<or> sublist (asc ''split into'') (u_lower U s) then asc ''divided''
            else asc ''other'') \<and>
         determine_transition_type U (Some (asc ''Merged into Tanzania'')) = asc ''merged'' \<and>
         determine_transition_type U (Some (asc ''Republic renamed'')) = asc ''other''"
proof -
  have lower_Nil: "u_lower U [] = []"
    using assms ok_lower [of U "[]"] by (simp add: is_ascii_def)
  have general: "determine_transition_type U (Some s) =
           (if sublist (asc ''merged into'') (u_lower U s) then asc ''merged''
            else if sublist (asc ''name changed'') (u_lower U s) then asc ''name_changed''
            else if sublist (asc ''divided into'') (u_lower U s)
                    \<or> sublist (asc ''split into'') (u_lower U s) then asc ''divided''
            else asc ''other'')"
  proof (cases "s = []")
    case True
    then show ?thesis
      by (simp add: determine_transition_type_def lower_Nil)
  next
    case False
    then show ?thesis
      by (simp add: determine_transition_type_def contains_iff_sublist Let_def)
  qed
  have ex1: "determine_transition_type U (Some (asc ''Merged into Tanzania'')) = asc ''merged''"
    using assms by (simp add: prog_defs ok_simps)
  have ex2: "determine_transition_type U (Some (asc ''Republic renamed'')) = asc ''other''"
    using assms by (simp add: prog_defs ok_simps)
  show ?thesis
    using general ex1 ex2 by (simp add: determine_transition_type_def)
qed

theorem classify_priority_witness:
  "unicode_ok ascii_db \<and>
   determine_transition_type ascii_db (Some (asc ''Split into A and B'')) = asc ''divided''"
proof -
  have "determine_transition_type ascii_db (Some (asc ''Split into A and B'')) = asc ''divided''"
    using classify_priority [OF unicode_ok_ascii_db, of "asc ''Split into A and B''"]
    by (simp add: contains_iff_sublist [symmetric] ascii_db_def asc_def ascii_lower_def)
  then show ?thesis
    by (simp add: unicode_ok_ascii_db)
qed

section \<open>\<^verbatim>\<open>clean_country_name\<close>: the action phrases\<close>

lemma strip_prefix_True: "prefix p name \<Longrightarrow> strip_prefix name p = drop (length p) name"
  by (simp add: strip_prefix_def)

lemma strip_prefix_False: "\<not> prefix p name \<Longrightarrow> strip_prefix name p = name"
  by (simp add: strip_prefix_def)

lemma foldl_strip_prefix_subseq:
  "\<exists>ps. subseq ps pres \<and> name = concat ps @ foldl strip_prefix name pres"
proof (induction pres arbitrary: name)
  case Nil
  have "subseq [] ([]::ustr list) \<and> name = concat [] @ foldl strip_prefix name []" by simp
  then show ?case by blast
next
  case (Cons p pres)
  show ?case
  proof (cases "prefix p name")
    case True
    then have eq: "name = p @ drop (length p) name"
      by (auto simp: prefix_def)
    obtain ps where ps: "subseq ps pres"
      "drop (length p) name = concat ps @ foldl strip_prefix (drop (length p) name) pres"
      using Cons.IH by blast
    have "subseq (p # ps) (p # pres) \<and>
      name = concat (p # ps) @ foldl strip_prefix name (p # pres)"
      using True ps eq by (simp add: strip_prefix_True)
    then show ?thesis by blast
  next
    case False
    obtain ps where ps: "subseq ps pres" "name = concat ps @ foldl strip_prefix name pres"
      using Cons.IH by blast
    have "subseq ps (p # pres)"
      using ps(1) by (rule list_emb_Cons)
    moreover have "name = concat ps @ foldl strip_prefix name (p # pres)"
      using False ps(2) by (simp add: strip_prefix_False)
    ultimately show ?thesis by blast
  qed
qed

lemma foldl_strip_prefix_none:
  "list_all (\<lambda>pre. \<not> prefix pre name) pres \<Longrightarrow> foldl strip_prefix name pres = name"
  by (induction pres) (simp_all add: strip_prefix_False)

lemma foldl_strip_prefix_first:
  assumes "list_all (\<lambda>pre. \<not> prefix pre
             (case find (\<lambda>pre. prefix pre name) pres of None \<Rightarrow> name
              | Some pre \<Rightarrow> drop (length pre) name)) pres"
  shows "foldl strip_prefix name pres =
           (case find (\<lambda>pre. prefix pre name) pres of None \<Rightarrow> name
            | Some pre \<Rightarrow> drop (length pre) name)"
  using assms
proof (induction pres)
  case Nil
  show ?case by simp
next
  case (Cons p pres)
  show ?case
  proof (cases "prefix p name")
    case True
    with Cons.prems have "list_all (\<lambda>pre. \<not> prefix pre (drop (length p) name)) pres"
      by simp
    then show ?thesis
      using True by (simp add: strip_prefix_True foldl_strip_prefix_none)
  next
    case False
    with Cons show ?thesis by (simp add: strip_prefix_False)
  qed
qed

lemma foldl_strip_prefix_steps:
  "\<exists>ns. length ns = Suc (length pres) \<and> ns ! 0 = x \<and> last ns = foldl strip_prefix x pres \<and>
     (\<forall>k<length pres.
        (prefix (pres ! k) (ns ! k) \<longrightarrow> ns ! k = pres ! k @ ns ! Suc k) \<and>
        (\<not> prefix (pres ! k) (ns ! k) \<longrightarrow> ns ! Suc k = ns ! k))"
proof (induction pres arbitrary: x)
  case Nil
  have "length [x] = Suc (length ([]::ustr list)) \<and> [x] ! 0 = x \<and>
      last [x] = foldl strip_prefix x [] \<and>
      (\<forall>k<length ([]::ustr list).
        (prefix ([] ! k) ([x] ! k) \<longrightarrow> [x] ! k = [] ! k @ [x] ! Suc k) \<and>
        (\<not> prefix ([] ! k) ([x] ! k) \<longrightarrow> [x] ! Suc k = [x] ! k))"
    by simp
  then show ?case by blast
next
  case (Cons p pres)
  obtain ns where ns: "length ns = Suc (length pres)" "ns ! 0 = strip_prefix x p"
    "last ns = foldl strip_prefix (strip_prefix x p) pres"
    "\<forall>k<length pres.
        (prefix (pres ! k) (ns ! k) \<longrightarrow> ns ! k = pres ! k @ ns ! Suc k) \<and>
        (\<not> prefix (pres ! k) (ns ! k) \<longrightarrow> ns ! Suc k = ns ! k)"
    using Cons.IH [of "strip_prefix x p"] by blast
  have ne: "ns \<noteq> []" using ns(1) by auto
  have first: "(prefix p x \<longrightarrow> x = p @ ns ! 0) \<and> (\<not> prefix p x \<longrightarrow> ns ! 0 = x)"
    unfolding ns(2) by (auto simp: strip_prefix_def prefix_def)
  have steps: "(prefix ((p # pres) ! k) ((x # ns) ! k) \<longrightarrow>
          (x # ns) ! k = (p # pres) ! k @ (x # ns) ! Suc k) \<and>
        (\<not> prefix ((p # pres) ! k) ((x # ns) ! k) \<longrightarrow> (x # ns) ! Suc k = (x # ns) ! k)"
    if "k < length (p # pres)" for k
  proof (cases k)
    case 0
    with first show ?thesis by simp
  next
    case (Suc j)
    with that have "j < length pres" by simp
    with ns(4) Suc show ?thesis by simp
  qed
  have "length (x # ns) = Suc (length (p # pres)) \<and> (x # ns) ! 0 = x \<and>
      last (x # ns) = foldl strip_prefix x (p # pres)"
    using ns(1,3) ne by simp
  with steps show ?case by blast
qed

lemma strip_prefix_append: "strip_prefix (p @ t) p = t"
  by (simp add: strip_prefix_def)

lemma strip_leading_phrases:
  "strip_prefixes (concat (take k prefixes) @ t) = foldl strip_prefix t (drop k prefixes)"
proof -
  have all: "foldl strip_prefix (concat prefixes @ t) prefixes = t"
    by (simp add: prefixes_def strip_prefix_append)
  consider "k = 0" | "k = 1" | "k = 2" | "k = 3" | "k = 4" | "5 \<le> k" by linarith
  then show ?thesis
  proof cases
    case 1
    then show ?thesis by (simp add: strip_prefixes_def)
  next
    case 2
    then show ?thesis by (simp add: strip_prefixes_def prefixes_def strip_prefix_append)
  next
    case 3
    then show ?thesis by (simp add: strip_prefixes_def prefixes_def strip_prefix_append)
  next
    case 4
    then show ?thesis by (simp add: strip_prefixes_def prefixes_def strip_prefix_append)
  next
    case 5
    then show ?thesis by (simp add: strip_prefixes_def prefixes_def strip_prefix_append)
  next
    case 6
    then have "take k prefixes = prefixes" "drop k prefixes = []"
      by (simp_all add: prefixes_def)
    then show ?thesis using all by (simp add: strip_prefixes_def)
  qed
qed

text \<open>
  C5, as amended. The loop over the five phrases has no \<^verbatim>\<open>break\<close>: each phrase is tested once,
  in the order of the list, against the start of what is left of the name (after the markers
  are removed), and is removed when it is a prefix. Said with the texts \<open>ns\<close> that are left
  before each test and after the last one: the first is the name without its markers, the
  last is what the whitespace step receives, and the text after the test of the phrase number
  \<open>k\<close> is the text before it without that phrase when it starts with the phrase, and is the
  same text when it does not. So the phrases removed by one call are a subsequence of the
  list, and there can be several of them: the first \<open>k\<close> phrases of the list, written one after
  another before any text \<open>t\<close>, are all removed, and the loop goes on with the other phrases on
  \<open>t\<close>; all five are removed from a text that starts with the five of them. When what is left
  after the first phrase found does not begin with a phrase of the list, that phrase is the
  only one removed.
\<close>

theorem prefixes_stripped_in_list_order:
  assumes "s \<noteq> []"
  shows "clean_country_name U (Some s) =
           py_strip U (py_join (asc '' '') (py_split_ws U (strip_prefixes (re_sub U note_pat s)))) \<and>
         (\<exists>ns. length ns = Suc (length prefixes) \<and> ns ! 0 = re_sub U note_pat s \<and>
            last ns = strip_prefixes (re_sub U note_pat s) \<and>
            (\<forall>k<length prefixes.
               (prefix (prefixes ! k) (ns ! k) \<longrightarrow> ns ! k = prefixes ! k @ ns ! Suc k) \<and>
               (\<not> prefix (prefixes ! k) (ns ! k) \<longrightarrow> ns ! Suc k = ns ! k))) \<and>
         (\<exists>ps. subseq ps prefixes \<and>
            re_sub U note_pat s = concat ps @ strip_prefixes (re_sub U note_pat s)) \<and>
         (re_sub U note_pat s = concat (take k prefixes) @ t \<longrightarrow>
            strip_prefixes (re_sub U note_pat s) = foldl strip_prefix t (drop k prefixes)) \<and>
         (re_sub U note_pat s = concat prefixes @ t \<longrightarrow> strip_prefixes (re_sub U note_pat s) = t) \<and>
         (list_all (\<lambda>pre. \<not> prefix pre (strip_first_prefix (re_sub U note_pat s))) prefixes \<longrightarrow>
            strip_prefixes (re_sub U note_pat s) = strip_first_prefix (re_sub U note_pat s))"
proof -
  have 1: "clean_country_name U (Some s) =
      py_strip U (py_join (asc '' '') (py_split_ws U (strip_prefixes (re_sub U note_pat s))))"
    using assms by (simp add: clean_country_name_def)
  have 2: "\<exists>ns. length ns = Suc (length prefixes) \<and> ns ! 0 = re_sub U note_pat s \<and>
            last ns = strip_prefixes (re_sub U note_pat s) \<and>
            (\<forall>k<length prefixes.
               (prefix (prefixes ! k) (ns ! k) \<longrightarrow> ns ! k = prefixes ! k @ ns ! Suc k) \<and>
               (\<not> prefix (prefixes ! k) (ns ! k) \<longrightarrow> ns ! Suc k = ns ! k))"
    unfolding strip_prefixes_def by (rule foldl_strip_prefix_steps)
  have 3: "\<exists>ps. subseq ps prefixes \<and>
            re_sub U note_pat s = concat ps @ strip_prefixes (re_sub U note_pat s)"
    unfolding strip_prefixes_def by (rule foldl_strip_prefix_subseq)
  have 4: "re_sub U note_pat s = concat (take k prefixes) @ t \<longrightarrow>
            strip_prefixes (re_sub U note_pat s) = foldl strip_prefix t (drop k prefixes)"
    by (simp add: strip_leading_phrases)
  have 5: "re_sub U note_pat s = concat prefixes @ t \<longrightarrow> strip_prefixes (re_sub U note_pat s) = t"
    using strip_leading_phrases [of "length prefixes" t] by simp
  have 6: "list_all (\<lambda>pre. \<not> prefix pre (strip_first_prefix (re_sub U note_pat s))) prefixes \<longrightarrow>
            strip_prefixes (re_sub U note_pat s) = strip_first_prefix (re_sub U note_pat s)"
    using foldl_strip_prefix_first [of "re_sub U note_pat s" prefixes]
    by (simp add: strip_prefixes_def strip_first_prefix_def)
  from 1 2 3 4 5 6 show ?thesis by blast
qed

lemma divided_resub:
  "re_sub ascii_db note_pat (asc ''Divided into: A[note 2]'') = asc ''Divided into: A''"
  by (simp add: prog_defs ascii_db_def ok_simps)

lemma divided_first: "strip_first_prefix (asc ''Divided into: A'') = asc '' A''"
  by (simp add: strip_first_prefix_def prefixes_def asc_def)

lemma divided_none: "list_all (\<lambda>pre. \<not> prefix pre (asc '' A'')) prefixes"
  by (simp add: prefixes_def asc_def)

lemma divided_ws: "py_strip ascii_db (py_join (asc '' '') (py_split_ws ascii_db (asc '' A''))) = asc ''A''"
  by (simp add: prog_defs ascii_db_def ok_simps)

theorem prefixes_stripped_in_list_order_witness:
  "asc ''Divided into: A[note 2]'' \<noteq> [] \<and>
   list_all (\<lambda>pre. \<not> prefix pre
       (strip_first_prefix (re_sub ascii_db note_pat (asc ''Divided into: A[note 2]'')))) prefixes \<and>
   strip_prefixes (re_sub ascii_db note_pat (asc ''Divided into: A[note 2]'')) = asc '' A'' \<and>
   clean_country_name ascii_db (Some (asc ''Divided into: A[note 2]'')) = asc ''A''"
proof -
  have ne: "asc ''Divided into: A[note 2]'' \<noteq> []" by simp
  note th = prefixes_stripped_in_list_order [OF ne, of ascii_db]
  have a: "strip_prefixes (re_sub ascii_db note_pat (asc ''Divided into: A[note 2]'')) = asc '' A''"
    using th [THEN conjunct2, THEN conjunct2, THEN conjunct2, THEN conjunct2, THEN conjunct2]
      divided_none by (simp add: divided_resub divided_first)
  have b: "clean_country_name ascii_db (Some (asc ''Divided into: A[note 2]'')) = asc ''A''"
    unfolding th [THEN conjunct1] a by (rule divided_ws)
  from ne a b divided_none show ?thesis
    by (simp add: divided_resub divided_first)
qed

text \<open>
  C5 as stated fails: on \<^verbatim>\<open>Merged into Name changed to X\<close> one call removes two phrases, where
  removing the first matching phrase only leaves \<^verbatim>\<open>Name changed to X\<close>.
\<close>

theorem two_prefixes_stripped:
  "clean_country_name ascii_db (Some (asc ''Merged into Name changed to X'')) = asc ''X'' \<and>
   strip_prefixes (asc ''Merged into Name changed to X'') = asc ''X'' \<and>
   strip_first_prefix (asc ''Merged into Name changed to X'') = asc ''Name changed to X''"
  by (simp add: prog_defs ascii_db_def ok_simps strip_first_prefix_def)

section \<open>\<^verbatim>\<open>parse_validity_period\<close>\<close>

lemma period_matches:
  "rx_matches U period_pat p w r g \<longleftrightarrow>
     length w = 9 \<and> is_digits U (take 4 w) \<and> (w ! 4 = 8211 \<or> w ! 4 = 45) \<and>
     is_digits U (drop 5 w) \<and> g = [take 4 w, drop 5 w]"
proof
  assume "rx_matches U period_pat p w r g"
  then obtain d1 x d2 where h: "w = d1 @ [x] @ d2" "length d1 = 4" "length d2 = 4"
    "is_digits U d1" "is_digits U d2" "x = 8211 \<or> x = 45" "g = [d1, d2]"
    by (auto simp: period_pat_def rep_ok_exact is_digits_def in_cls_Digit)
  from h(1,2) have "w ! 4 = x" by (simp add: nth_append)
  with h show "length w = 9 \<and> is_digits U (take 4 w) \<and> (w ! 4 = 8211 \<or> w ! 4 = 45) \<and>
     is_digits U (drop 5 w) \<and> g = [take 4 w, drop 5 w]"
    by simp
next
  assume a: "length w = 9 \<and> is_digits U (take 4 w) \<and> (w ! 4 = 8211 \<or> w ! 4 = 45) \<and>
     is_digits U (drop 5 w) \<and> g = [take 4 w, drop 5 w]"
  then have w: "w = take 4 w @ [w ! 4] @ drop 5 w"
    using id_take_nth_drop [of 4 w] by simp
  have "rx_matches U period_pat p (take 4 w @ [w ! 4] @ drop 5 w) r [take 4 w, drop 5 w]"
    using a by (simp add: period_pat_def rep_ok_exact is_digits_def in_cls_Digit)
  with w a show "rx_matches U period_pat p w r g" by simp
qed

lemma period_match_at:
  assumes "period_at U s i"
  shows "match_at U period_pat q (drop i s) =
     Some (\<lparr>m_start = q, m_end = q + 9,
            m_groups = [slice s i (i + 4), slice s (i + 5) (i + 9)]\<rparr>, drop (i + 9) s)"
proof -
  let ?w = "take 9 (drop i s)"
  from assms have len: "i + 9 \<le> length s" by (simp add: period_at_def)
  have split: "drop i s = ?w @ drop (i + 9) s"
    by (metis append_take_drop_id drop_drop add.commute)
  have lw: "length ?w = 9" using len by simp
  have t4: "take 4 ?w = slice s i (i + 4)" by (simp add: slice_def)
  have d5: "drop 5 ?w = slice s (i + 5) (i + 9)"
    by (simp add: slice_def drop_take add.commute)
  have n4: "?w ! 4 = s ! (i + 4)" using len by simp
  have m: "rx_matches U period_pat q ?w (drop (i + 9) s) [slice s i (i + 4), slice s (i + 5) (i + 9)]"
    using assms lw unfolding period_matches t4 d5 n4 by (simp add: period_at_def)
  have u: "w1 = ?w \<and> g1 = [slice s i (i + 4), slice s (i + 5) (i + 9)]"
    if "drop i s = w1 @ r1" "rx_matches U period_pat q w1 r1 g1" for w1 r1 g1
  proof -
    from that(2) have l: "length w1 = 9" and g: "g1 = [take 4 w1, drop 5 w1]"
      by (simp_all add: period_matches)
    from that(1) l have "w1 = ?w" by simp
    with g t4 d5 show ?thesis by simp
  qed
  from match_at_unique [OF split m u] lw show ?thesis by simp
qed

lemma period_no_match_at:
  assumes "\<not> period_at U s i" "i \<le> length s"
  shows "match_at U period_pat q (drop i s) = None"
proof -
  have False if "drop i s = w @ r" "rx_matches U period_pat q w r g" for w r g
  proof -
    from that(2) have h: "length w = 9" "is_digits U (take 4 w)" "w ! 4 = 8211 \<or> w ! 4 = 45"
      "is_digits U (drop 5 w)"
      by (simp_all add: period_matches)
    have "length (drop i s) = length w + length r" using that(1) by simp
    with h(1) assms(2) have len: "i + 9 \<le> length s" by simp
    from that(1) h(1) have w: "w = take 9 (drop i s)" by simp
    have "take 4 w = slice s i (i + 4)" by (simp add: w slice_def)
    moreover have "drop 5 w = slice s (i + 5) (i + 9)"
      by (simp add: w slice_def drop_take add.commute)
    moreover have "w ! 4 = s ! (i + 4)" using len by (simp add: w)
    ultimately have "period_at U s i"
      using h len by (simp add: period_at_def)
    with assms(1) show False by simp
  qed
  then show ?thesis by (auto simp: match_at_None_iff)
qed

lemma py_int_digits: "is_digits U w \<Longrightarrow> w \<noteq> [] \<Longrightarrow> py_int U w = Inr (digits_value U w)"
  by (simp add: py_int_def is_digits_def digits_value_def)

lemma period_search_first:
  assumes "period_at U s i" "\<forall>j<i. \<not> period_at U s j"
  shows "re_search U period_pat s =
     Some \<lparr>m_start = i, m_end = i + 9,
           m_groups = [slice s i (i + 4), slice s (i + 5) (i + 9)]\<rparr>"
proof -
  from assms(1) have len: "i \<le> length s" by (simp add: period_at_def)
  have none: "\<forall>j<i. match_at U period_pat (0 + j) (drop j s) = None"
    using assms(2) len by (simp add: period_no_match_at)
  show ?thesis
    unfolding re_search_def
    using search_from_first [OF len _ none] period_match_at [OF assms(1), of "0 + i"]
    by simp
qed

lemma period_search_none:
  assumes "\<forall>i. \<not> period_at U s i"
  shows "re_search U period_pat s = None"
  unfolding re_search_def search_from_None_iff using assms by (simp add: period_no_match_at)

lemma parse_period_first:
  assumes "period_at U (py_strip U s) i" "\<forall>j<i. \<not> period_at U (py_strip U s) j"
  shows "parse_validity_period U (Some s) =
     Inr \<lparr>v_start = Some (digits_value U (slice (py_strip U s) i (i + 4))),
          v_end = Some (digits_value U (slice (py_strip U s) (i + 5) (i + 9)))\<rparr>"
proof -
  from assms(1) have ne: "s \<noteq> []"
    by (auto simp: period_at_def py_strip_def)
  from assms(1) have d: "is_digits U (slice (py_strip U s) i (i + 4))"
    "is_digits U (slice (py_strip U s) (i + 5) (i + 9))" "i + 9 \<le> length (py_strip U s)"
    by (simp_all add: period_at_def)
  from d(3) have n: "slice (py_strip U s) i (i + 4) \<noteq> []" "slice (py_strip U s) (i + 5) (i + 9) \<noteq> []"
    by (simp_all add: slice_def)
  show ?thesis
    using ne
    by (simp add: parse_validity_period_def period_search_first [OF assms] group_exn_def
        group_def py_int_digits [OF d(1) n(1)] py_int_digits [OF d(2) n(2)])
qed

lemma parse_period_none:
  assumes "\<forall>i. \<not> period_at U (py_strip U s) i"
  shows "parse_validity_period U (Some s) = Inr no_period"
  by (simp add: parse_validity_period_def period_search_none [OF assms])

lemma parse_period_total:
  "\<exists>v. parse_validity_period U c = Inr v \<and> (v_start v = None \<longleftrightarrow> v_end v = None)"
proof (cases c)
  case None
  then show ?thesis by (simp add: parse_validity_period_def no_period_def)
next
  case (Some s)
  show ?thesis
  proof (cases "\<exists>i. period_at U (py_strip U s) i")
    case True
    define i where "i = (LEAST i. period_at U (py_strip U s) i)"
    from True have 1: "period_at U (py_strip U s) i"
      unfolding i_def by (metis LeastI)
    have 2: "\<forall>j<i. \<not> period_at U (py_strip U s) j"
      unfolding i_def using not_less_Least by blast
    show ?thesis
      using parse_period_first [OF 1 2] Some by simp
  next
    case False
    then have "\<forall>i. \<not> period_at U (py_strip U s) i" by simp
    from parse_period_none [OF this] Some show ?thesis by (simp add: no_period_def)
  qed
qed

lemma ex_period_1: "unicode_ok U \<Longrightarrow>
   parse_validity_period U (Some (asc ''1965'' @ 8211 # asc ''1974'')) =
     Inr \<lparr>v_start = Some 1965, v_end = Some 1974\<rparr>"
  by (simp add: prog_defs ok_simps)

lemma ex_period_2: "unicode_ok U \<Longrightarrow>
   parse_validity_period U (Some (asc ''no date'')) = Inr no_period"
  by (simp add: prog_defs ok_simps)

lemma ex_period_3: "unicode_ok U \<Longrightarrow>
   parse_validity_period U (Some (asc ''1974-1965'')) =
     Inr \<lparr>v_start = Some 1974, v_end = Some 1965\<rparr>"
  by (simp add: prog_defs ok_simps)

text \<open>
  C4. \<^verbatim>\<open>parse_validity_period\<close> always returns, with both years or none. It uses the first
  occurrence of the pattern in the stripped text: when there is no occurrence both years are
  absent, and when \<open>i\<close> is the first index with an occurrence, the years are the numbers of
  the two digit groups there. There is no check of their order. The examples of the
  specification, and a text whose end year is before its start year.
\<close>

theorem period_from_first_occurrence:
  "(\<exists>v. parse_validity_period U c = Inr v \<and> (v_start v = None \<longleftrightarrow> v_end v = None)) \<and>
   parse_validity_period U None = Inr no_period \<and>
   ((\<forall>i. \<not> period_at U (py_strip U s0) i) \<longrightarrow>
      parse_validity_period U (Some s0) = Inr no_period) \<and>
   (period_at U (py_strip U s) i \<and> (\<forall>j<i. \<not> period_at U (py_strip U s) j) \<longrightarrow>
      parse_validity_period U (Some s) =
        Inr \<lparr>v_start = Some (digits_value U (slice (py_strip U s) i (i + 4))),
             v_end = Some (digits_value U (slice (py_strip U s) (i + 5) (i + 9)))\<rparr>) \<and>
   (unicode_ok U \<longrightarrow>
      parse_validity_period U (Some (asc ''1965'' @ 8211 # asc ''1974'')) =
        Inr \<lparr>v_start = Some 1965, v_end = Some 1974\<rparr> \<and>
      parse_validity_period U (Some (asc ''no date'')) = Inr no_period \<and>
      parse_validity_period U (Some (asc ''1974-1965'')) =
        Inr \<lparr>v_start = Some 1974, v_end = Some 1965\<rparr>)"
  using parse_period_total [of U c] parse_period_none [of U s0] parse_period_first [of U s i]
    ex_period_1 [of U] ex_period_2 [of U] ex_period_3 [of U]
  by (simp add: parse_validity_period_def)

lemma two_periods_strip:
  "py_strip ascii_db (asc ''from 1990-1992 to 2000-2001'') = asc ''from 1990-1992 to 2000-2001''"
  by (simp add: prog_defs ascii_db_def ok_simps)

lemma two_periods_at: "period_at ascii_db (asc ''from 1990-1992 to 2000-2001'') 5"
  by (simp add: period_at_def is_digits_def slice_def asc_def ascii_db_def ascii_decimal_def)

lemma upt_0_5: "[0..<5] = [0, 1, 2, 3, 4]"
  by (simp add: eval_nat_numeral)

lemma two_periods_before:
  "list_all (\<lambda>j. \<not> period_at ascii_db (asc ''from 1990-1992 to 2000-2001'') j) [0..<5]"
  unfolding upt_0_5
  by (simp add: period_at_def is_digits_def slice_def asc_def ascii_db_def ascii_decimal_def)

lemma two_periods_values:
  "digits_value ascii_db (slice (asc ''from 1990-1992 to 2000-2001'') 5 (5 + 4)) = 1990 \<and>
   digits_value ascii_db (slice (asc ''from 1990-1992 to 2000-2001'') (5 + 5) (5 + 9)) = 1992"
  by (simp add: digits_value_def slice_def asc_def ascii_db_def ascii_decimal_def)

lemma no_date_none: "\<forall>i. \<not> period_at ascii_db (py_strip ascii_db (asc ''no date'')) i"
  by (simp add: period_at_def prog_defs ascii_db_def ok_simps)

theorem period_from_first_occurrence_witness:
  "unicode_ok ascii_db \<and>
   period_at ascii_db (py_strip ascii_db (asc ''from 1990-1992 to 2000-2001'')) 5 \<and>
   list_all (\<lambda>j. \<not> period_at ascii_db (py_strip ascii_db (asc ''from 1990-1992 to 2000-2001'')) j)
     [0..<5] \<and>
   parse_validity_period ascii_db (Some (asc ''from 1990-1992 to 2000-2001'')) =
     Inr \<lparr>v_start = Some 1990, v_end = Some 1992\<rparr> \<and>
   parse_validity_period ascii_db (Some (asc ''no date'')) = Inr no_period"
  using period_from_first_occurrence [of ascii_db "Some (asc ''no date'')" "asc ''no date''"
      "asc ''from 1990-1992 to 2000-2001''" 5]
    unicode_ok_ascii_db two_periods_at two_periods_before
    all_less_upt [OF two_periods_before] no_date_none two_periods_values
  by (simp add: two_periods_strip)

section \<open>\<^verbatim>\<open>parse_former_codes\<close>\<close>

lemma in_cls_Upper: "in_cls U Upper = (\<lambda>c. 65 \<le> c \<and> c \<le> 90)"
  by (rule ext) simp

lemma anchored_matches:
  "rx_matches U (seqs [Bol, Rep k n (Some n), Eol]) p w r g \<longleftrightarrow>
     p = 0 \<and> length w = n \<and> list_all (in_cls U k) w \<and> (r = [] \<or> r = [10]) \<and> g = []"
  by (auto simp: rep_ok_exact)

lemma re_match_anchored:
  assumes "t = [] \<or> last t \<noteq> 10"
  shows "re_match U (seqs [Bol, Rep k n (Some n), Eol]) t \<noteq> None \<longleftrightarrow>
           length t = n \<and> list_all (in_cls U k) t"
proof -
  have "re_match U (seqs [Bol, Rep k n (Some n), Eol]) t \<noteq> None \<longleftrightarrow>
        (\<exists>w r g. t = w @ r \<and> rx_matches U (seqs [Bol, Rep k n (Some n), Eol]) 0 w r g)"
    using match_at_None_iff [of U "seqs [Bol, Rep k n (Some n), Eol]" 0 t]
    by (auto simp: re_match_def)
  also have "\<dots> \<longleftrightarrow> (\<exists>w r. t = w @ r \<and> length w = n \<and> list_all (in_cls U k) w \<and> (r = [] \<or> r = [10]))"
    unfolding anchored_matches by auto
  also have "\<dots> \<longleftrightarrow> length t = n \<and> list_all (in_cls U k) t"
    using assms by auto
  finally show ?thesis .
qed

lemma py_strip_last:
  assumes "unicode_ok U"
  shows "py_strip U x = [] \<or> last (py_strip U x) \<noteq> 10"
proof (cases "py_strip U x = []")
  case True
  then show ?thesis by simp
next
  case False
  let ?d = "dropWhile (u_space U) (rev (dropWhile (u_space U) x))"
  from False have ne: "?d \<noteq> []" by (simp add: py_strip_def)
  then have "\<not> u_space U (hd ?d)" by (rule hd_dropWhile)
  moreover have "last (py_strip U x) = hd ?d"
    using ne by (simp add: py_strip_def last_rev)
  moreover have "u_space U 10"
    using assms by (simp add: ok_space ascii_space_def)
  ultimately show ?thesis by auto
qed

text \<open>The loop over the parts: what the three slots hold after it.\<close>

lemma foldl_assign_code:
  "alpha2 (foldl (assign_code U) r ts) =
     (case find (\<lambda>t. re_match U alpha2_pat t \<noteq> None) (rev ts) of
        None \<Rightarrow> alpha2 r | Some t \<Rightarrow> Some t) \<and>
   alpha3 (foldl (assign_code U) r ts) =
     (case find (\<lambda>t. re_match U alpha2_pat t = None \<and> re_match U alpha3_pat t \<noteq> None) (rev ts) of
        None \<Rightarrow> alpha3 r | Some t \<Rightarrow> Some t) \<and>
   numeric (foldl (assign_code U) r ts) =
     (case find (\<lambda>t. re_match U alpha2_pat t = None \<and> re_match U alpha3_pat t = None
                      \<and> re_match U numeric_pat t \<noteq> None) (rev ts) of
        None \<Rightarrow> numeric r | Some t \<Rightarrow> Some t)"
proof (induction ts rule: rev_induct)
  case Nil
  show ?case by simp
next
  case (snoc t ts)
  then show ?case
    by (simp add: assign_code_def)
qed

lemma find_cong_set: "(\<And>x. x \<in> set xs \<Longrightarrow> P x = Q x) \<Longrightarrow> find P xs = find Q xs"
  by (induction xs) auto

lemma upper_not_digits:
  assumes "unicode_ok U" "is_upper t" "t \<noteq> []"
  shows "\<not> is_digits U t"
proof -
  from assms(3) obtain c cs where t: "t = c # cs" by (cases t) auto
  with assms(2) have c: "65 \<le> c" "c \<le> 90" by (simp_all add: is_upper_def)
  then have "u_decimal U c = None"
    using assms(1) by (simp add: ok_decimal ascii_decimal_def)
  with t show ?thesis by (simp add: is_digits_def)
qed

lemma token_tests:
  assumes "unicode_ok U" "t \<in> set (code_parts U s)"
  shows "re_match U alpha2_pat t \<noteq> None \<longleftrightarrow> length t = 2 \<and> is_upper t"
    and "re_match U alpha3_pat t \<noteq> None \<longleftrightarrow> length t = 3 \<and> is_upper t"
    and "re_match U numeric_pat t \<noteq> None \<longleftrightarrow> length t = 3 \<and> is_digits U t"
proof -
  from assms(2) obtain x where "t = py_strip U x"
    by (auto simp: code_parts_def)
  then have l: "t = [] \<or> last t \<noteq> 10"
    using py_strip_last [OF assms(1), of x] by simp
  show "re_match U alpha2_pat t \<noteq> None \<longleftrightarrow> length t = 2 \<and> is_upper t"
    unfolding alpha2_pat_def re_match_anchored [OF l] by (simp add: in_cls_Upper is_upper_def)
  show "re_match U alpha3_pat t \<noteq> None \<longleftrightarrow> length t = 3 \<and> is_upper t"
    unfolding alpha3_pat_def re_match_anchored [OF l] by (simp add: in_cls_Upper is_upper_def)
  show "re_match U numeric_pat t \<noteq> None \<longleftrightarrow> length t = 3 \<and> is_digits U t"
    unfolding numeric_pat_def re_match_anchored [OF l] by (simp add: in_cls_Digit is_digits_def)
qed

lemma former_codes_slots:
  assumes "unicode_ok U"
  shows "alpha2 (parse_former_codes U (Some s)) =
           find (\<lambda>t. length t = 2 \<and> is_upper t) (rev (code_parts U s))"
    and "alpha3 (parse_former_codes U (Some s)) =
           find (\<lambda>t. length t = 3 \<and> is_upper t) (rev (code_parts U s))"
    and "numeric (parse_former_codes U (Some s)) =
           find (\<lambda>t. length t = 3 \<and> is_digits U t) (rev (code_parts U s))"
proof -
  let ?ts = "code_parts U s"
  have strip_Nil: "py_strip U [] = []" by (simp add: py_strip_def)
  have parts_Nil: "code_parts U [] = [[]]"
    by (simp add: code_parts_def py_split_def strip_Nil)
  have p: "parse_former_codes U (Some s) = foldl (assign_code U) no_codes ?ts"
  proof (cases "s = []")
    case True
    then show ?thesis
      by (simp add: parse_former_codes_def parts_Nil assign_code_def prog_defs)
  next
    case False
    then show ?thesis by (simp add: parse_former_codes_def)
  qed
  have a2: "find (\<lambda>t. re_match U alpha2_pat t \<noteq> None) (rev ?ts) =
            find (\<lambda>t. length t = 2 \<and> is_upper t) (rev ?ts)"
  proof (rule find_cong_set)
    fix t assume "t \<in> set (rev ?ts)"
    then have t: "t \<in> set ?ts" by simp
    show "(re_match U alpha2_pat t \<noteq> None) = (length t = 2 \<and> is_upper t)"
      using token_tests(1) [OF assms t] .
  qed
  have a3: "find (\<lambda>t. re_match U alpha2_pat t = None \<and> re_match U alpha3_pat t \<noteq> None) (rev ?ts) =
            find (\<lambda>t. length t = 3 \<and> is_upper t) (rev ?ts)"
  proof (rule find_cong_set)
    fix t assume "t \<in> set (rev ?ts)"
    then have t: "t \<in> set ?ts" by simp
    show "(re_match U alpha2_pat t = None \<and> re_match U alpha3_pat t \<noteq> None) =
          (length t = 3 \<and> is_upper t)"
      using token_tests(1,2) [OF assms t] by auto
  qed
  have n: "find (\<lambda>t. re_match U alpha2_pat t = None \<and> re_match U alpha3_pat t = None
                      \<and> re_match U numeric_pat t \<noteq> None) (rev ?ts) =
           find (\<lambda>t. length t = 3 \<and> is_digits U t) (rev ?ts)"
  proof (rule find_cong_set)
    fix t assume "t \<in> set (rev ?ts)"
    then have t: "t \<in> set ?ts" by simp
    have "\<not> is_upper t" if "length t = 3" "is_digits U t"
    proof
      assume u: "is_upper t"
      from that(1) have "t \<noteq> []" by auto
      from upper_not_digits [OF assms u this] that(2) show False by simp
    qed
    then show "(re_match U alpha2_pat t = None \<and> re_match U alpha3_pat t = None
                  \<and> re_match U numeric_pat t \<noteq> None) =
          (length t = 3 \<and> is_digits U t)"
      using token_tests [OF assms t] by auto
  qed
  note f = foldl_assign_code [of U no_codes ?ts]
  show "alpha2 (parse_former_codes U (Some s)) =
           find (\<lambda>t. length t = 2 \<and> is_upper t) (rev (code_parts U s))"
    unfolding p f [THEN conjunct1] a2
    by (cases "find (\<lambda>t. length t = 2 \<and> is_upper t) (rev (code_parts U s))")
      (simp_all add: no_codes_def)
  show "alpha3 (parse_former_codes U (Some s)) =
           find (\<lambda>t. length t = 3 \<and> is_upper t) (rev (code_parts U s))"
    unfolding p f [THEN conjunct2, THEN conjunct1] a3
    by (cases "find (\<lambda>t. length t = 3 \<and> is_upper t) (rev (code_parts U s))")
      (simp_all add: no_codes_def)
  show "numeric (parse_former_codes U (Some s)) =
           find (\<lambda>t. length t = 3 \<and> is_digits U t) (rev (code_parts U s))"
    unfolding p f [THEN conjunct2, THEN conjunct2] n
    by (cases "find (\<lambda>t. length t = 3 \<and> is_digits U t) (rev (code_parts U s))")
      (simp_all add: no_codes_def)
qed

lemma split_on_not_Nil: "split_on sep w xs \<noteq> []"
  by (induction xs arbitrary: w) auto

lemma py_join_Cons: "rest \<noteq> [] \<Longrightarrow> py_join sep (a # rest) = a @ sep @ py_join sep rest"
  by (cases rest) auto

lemma join_split_on: "py_join [sep] (split_on sep w xs) = w @ xs"
  by (induction xs arbitrary: w) (simp_all add: py_join_Cons split_on_not_Nil)

lemma split_on_no_sep: "sep \<notin> set w \<Longrightarrow> list_all (\<lambda>t. sep \<notin> set t) (split_on sep w xs)"
  by (induction xs arbitrary: w) auto

lemma ex_codes_1:
  "unicode_ok U \<Longrightarrow> parse_former_codes U (Some (asc ''US, USA, 840'')) =
     \<lparr>alpha2 = Some (asc ''US''), alpha3 = Some (asc ''USA''), numeric = Some (asc ''840'')\<rparr>"
  by (simp add: prog_defs ok_simps)

lemma ex_codes_2:
  "unicode_ok U \<Longrightarrow> parse_former_codes U (Some (asc ''USA, US'')) =
     \<lparr>alpha2 = Some (asc ''US''), alpha3 = Some (asc ''USA''), numeric = None\<rparr>"
  by (simp add: prog_defs ok_simps)

text \<open>
  C3. The parts are the pieces of the stripped text between its commas, each stripped. The
  alpha2 slot holds the last part that is two uppercase letters, the alpha3 slot the last
  part that is three uppercase letters, the numeric slot the last part that is three digits;
  a slot that no part fits is absent, and all other parts are ignored. The two examples of
  the specification.
\<close>

theorem former_codes_last_wins:
  assumes "unicode_ok U"
  shows "parse_former_codes U None = no_codes \<and>
    code_parts U s = map (py_strip U) (py_split 44 (py_strip U s)) \<and>
    py_join (asc '','') (py_split 44 (py_strip U s)) = py_strip U s \<and>
    list_all (\<lambda>t. 44 \<notin> set t) (py_split 44 (py_strip U s)) \<and>
    alpha2 (parse_former_codes U (Some s)) =
      find (\<lambda>t. length t = 2 \<and> is_upper t) (rev (code_parts U s)) \<and>
    alpha3 (parse_former_codes U (Some s)) =
      find (\<lambda>t. length t = 3 \<and> is_upper t) (rev (code_parts U s)) \<and>
    numeric (parse_former_codes U (Some s)) =
      find (\<lambda>t. length t = 3 \<and> is_digits U t) (rev (code_parts U s)) \<and>
    parse_former_codes U (Some (asc ''US, USA, 840'')) =
      \<lparr>alpha2 = Some (asc ''US''), alpha3 = Some (asc ''USA''), numeric = Some (asc ''840'')\<rparr> \<and>
    parse_former_codes U (Some (asc ''USA, US'')) =
      \<lparr>alpha2 = Some (asc ''US''), alpha3 = Some (asc ''USA''), numeric = None\<rparr>"
proof -
  have j: "py_join (asc '','') (py_split 44 (py_strip U s)) = py_strip U s"
    using join_split_on [of 44 "[]" "py_strip U s"] by (simp add: py_split_def asc_def)
  have n: "list_all (\<lambda>t. 44 \<notin> set t) (py_split 44 (py_strip U s))"
    using split_on_no_sep [of 44 "[]" "py_strip U s"] by (simp add: py_split_def)
  show ?thesis
    using j n former_codes_slots [OF assms, of s] ex_codes_1 [OF assms] ex_codes_2 [OF assms]
    by (simp add: parse_former_codes_def code_parts_def)
qed

lemma five_parts:
  "code_parts ascii_db (asc ''AB, XY, 123, ABC, 456, x9'') =
     [asc ''AB'', asc ''XY'', asc ''123'', asc ''ABC'', asc ''456'', asc ''x9'']"
  by (simp add: prog_defs ascii_db_def ok_simps)

theorem former_codes_last_wins_witness:
  "unicode_ok ascii_db \<and>
   parse_former_codes ascii_db (Some (asc ''AB, XY, 123, ABC, 456, x9'')) =
     \<lparr>alpha2 = Some (asc ''XY''), alpha3 = Some (asc ''ABC''), numeric = Some (asc ''456'')\<rparr>"
proof -
  let ?r = "parse_former_codes ascii_db (Some (asc ''AB, XY, 123, ABC, 456, x9''))"
  note t = former_codes_last_wins [OF unicode_ok_ascii_db, of "asc ''AB, XY, 123, ABC, 456, x9''",
      THEN conjunct2, THEN conjunct2, THEN conjunct2, THEN conjunct2]
  have a2: "alpha2 ?r = Some (asc ''XY'')"
    unfolding t [THEN conjunct1] five_parts
    by (simp add: is_upper_def asc_def)
  have a3: "alpha3 ?r = Some (asc ''ABC'')"
    unfolding t [THEN conjunct2, THEN conjunct1] five_parts
    by (simp add: is_upper_def asc_def)
  have n: "numeric ?r = Some (asc ''456'')"
    unfolding t [THEN conjunct2, THEN conjunct2, THEN conjunct1] five_parts
    by (simp add: is_digits_def asc_def ascii_db_def ascii_decimal_def)
  from a2 a3 n have "?r = \<lparr>alpha2 = Some (asc ''XY''), alpha3 = Some (asc ''ABC''),
      numeric = Some (asc ''456'')\<rparr>"
    by (cases ?r) simp
  then show ?thesis by (simp add: unicode_ok_ascii_db)
qed

section \<open>\<^verbatim>\<open>clean_country_name\<close>: the annotation markers\<close>

lemma note_matches:
  "rx_matches U note_pat p w r g \<longleftrightarrow>
     (\<exists>ds. w = asc ''[note '' @ ds @ asc '']'' \<and> ds \<noteq> [] \<and> is_digits U ds \<and> g = [])"
  by (auto simp: note_pat_def rep_ok_def is_digits_def in_cls_Digit Suc_le_eq)

lemma note_match_position:
  "match_at U note_pat p r = None \<longleftrightarrow> match_at U note_pat q r = None"
  by (simp add: match_at_None_iff note_matches)

lemma note_match_progress:
  assumes "match_at U note_pat p r = Some (m, s')"
  shows "\<exists>w. r = w @ s' \<and> w \<noteq> [] \<and> m_end m = p + length w"
proof -
  from match_at_Some [OF assms] obtain w g where
    h: "r = w @ s'" "m = \<lparr>m_start = p, m_end = p + length w, m_groups = g\<rparr>"
      "rx_matches U note_pat p w s' g"
    by blast
  from h(3) have "w \<noteq> []" by (auto simp: note_matches asc_def)
  with h show ?thesis by auto
qed

lemma brackets_open_markers_suffix:
  "brackets_open_markers U (w @ s) \<Longrightarrow> brackets_open_markers U s"
  by (induction w) auto

lemma sub_from_no_bracket:
  "brackets_open_markers U r \<Longrightarrow> 91 \<notin> set (sub_from U note_pat p r)"
proof (induction r arbitrary: p rule: length_induct)
  case (1 r)
  show ?case
  proof (cases r)
    case Nil
    then show ?thesis by simp
  next
    case (Cons x xs)
    show ?thesis
    proof (cases "match_at U note_pat p (x # xs)")
      case None
      then have "match_at U note_pat 0 (x # xs) = None"
        using note_match_position [of U p "x # xs" 0] by simp
      with "1.prems" Cons have x: "x \<noteq> 91" and xs: "brackets_open_markers U xs"
        by simp_all
      have "91 \<notin> set (sub_from U note_pat (Suc p) xs)"
        using "1.IH" xs Cons by simp
      with x None Cons show ?thesis by simp
    next
      case (Some a)
      obtain m s' where a: "a = (m, s')" by (cases a)
      from note_match_progress [OF Some [unfolded a]] obtain w where
        w: "x # xs = w @ s'" "w \<noteq> []"
        by blast
      then have l: "length s' < length (x # xs)"
        by (metis length_append length_greater_0_conv less_add_same_cancel2)
      have b: "brackets_open_markers U s'"
        using "1.prems" Cons w(1) brackets_open_markers_suffix [of U w s'] by simp
      have "91 \<notin> set (sub_from U note_pat (m_end m) s')"
        using "1.IH" l b Cons by simp
      with Some a l Cons show ?thesis by simp
    qed
  qed
qed

lemma set_strip_prefixes: "set (foldl strip_prefix name pres) \<subseteq> set name"
proof (induction pres arbitrary: name)
  case Nil
  show ?case by simp
next
  case (Cons p pres)
  have "set (strip_prefix name p) \<subseteq> set name"
    by (auto simp: strip_prefix_def dest: in_set_dropD)
  with Cons.IH [of "strip_prefix name p"] show ?case by auto
qed

lemma set_split_ws: "set (concat (split_ws U w xs)) \<subseteq> set w \<union> set xs"
proof (induction xs arbitrary: w)
  case Nil
  show ?case by simp
next
  case (Cons x xs)
  show ?case
  proof (cases "u_space U x")
    case True
    have "set (concat (split_ws U w (x # xs))) \<subseteq> set w \<union> set (concat (split_ws U [] xs))"
      using True by auto
    also have "\<dots> \<subseteq> set w \<union> set (x # xs)"
      using Cons.IH [of "[]"] by auto
    finally show ?thesis .
  next
    case False
    have "set (concat (split_ws U w (x # xs))) = set (concat (split_ws U (w @ [x]) xs))"
      using False by simp
    also have "\<dots> \<subseteq> set w \<union> set (x # xs)"
      using Cons.IH [of "w @ [x]"] by auto
    finally show ?thesis .
  qed
qed

lemma set_py_join: "set (py_join sep xs) \<subseteq> set sep \<union> set (concat xs)"
  by (induction sep xs rule: py_join.induct) auto

lemma set_py_strip: "set (py_strip U s) \<subseteq> set s"
proof -
  have "set (py_strip U s) \<subseteq> set (rev (dropWhile (u_space U) s))"
    unfolding py_strip_def using set_dropWhileD by fastforce
  also have "\<dots> \<subseteq> set s"
    using set_dropWhileD by fastforce
  finally show ?thesis .
qed

lemma set_clean:
  "set (clean_country_name U (Some s)) \<subseteq> set (re_sub U note_pat s) \<union> {32}"
proof (cases "s = []")
  case True
  then show ?thesis by (simp add: clean_country_name_def)
next
  case False
  let ?n = "strip_prefixes (re_sub U note_pat s)"
  have "set (clean_country_name U (Some s)) \<subseteq> set (py_join (asc '' '') (py_split_ws U ?n))"
    using False set_py_strip by (simp add: clean_country_name_def)
  also have "\<dots> \<subseteq> set (asc '' '') \<union> set (concat (py_split_ws U ?n))"
    by (rule set_py_join)
  also have "\<dots> \<subseteq> {32} \<union> set ?n"
    using set_split_ws [of U "[]" ?n] by (auto simp: py_split_ws_def asc_def)
  also have "\<dots> \<subseteq> {32} \<union> set (re_sub U note_pat s)"
    using set_strip_prefixes [of "re_sub U note_pat s" prefixes] by (auto simp: strip_prefixes_def)
  finally show ?thesis by auto
qed

lemma has_marker_bracket:
  assumes "has_marker U t"
  shows "91 \<in> set t"
proof -
  from assms obtain m where "search_from U note_pat 0 t = Some m"
    by (auto simp: has_marker_def re_search_def)
  from search_from_Some [OF this] obtain i s' where
    "match_at U note_pat (0 + i) (drop i t) = Some (m, s')"
    by blast
  from match_at_Some [OF this] obtain w g where
    h: "drop i t = w @ s'" "rx_matches U note_pat (0 + i) w s' g"
    by blast
  from h(2) have "91 \<in> set w" by (auto simp: note_matches asc_def)
  then have "91 \<in> set (drop i t)" using h(1) by simp
  then show ?thesis by (rule in_set_dropD)
qed

text \<open>
  C6, as amended. When every \<^verbatim>\<open>[\<close> of the input begins a marker, the name returned by
  \<^verbatim>\<open>clean_country_name\<close> has no \<^verbatim>\<open>[\<close> and so no marker; for an absent input it is empty.
\<close>

theorem clean_leaves_no_marker:
  assumes "brackets_open_markers U s"
  shows "91 \<notin> set (clean_country_name U (Some s)) \<and>
         \<not> has_marker U (clean_country_name U (Some s)) \<and>
         \<not> has_marker U (clean_country_name U None)"
proof -
  have "91 \<notin> set (re_sub U note_pat s)"
    unfolding re_sub_def using assms by (rule sub_from_no_bracket)
  then have 1: "91 \<notin> set (clean_country_name U (Some s))"
    using set_clean [of U s] by auto
  then have 2: "\<not> has_marker U (clean_country_name U (Some s))"
    using has_marker_bracket by blast
  have 3: "\<not> has_marker U (clean_country_name U None)"
    using has_marker_bracket [of U "[]"] by (auto simp: clean_country_name_def)
  from 1 2 3 show ?thesis by simp
qed

lemma zanzibar_brackets:
  "brackets_open_markers ascii_db (asc ''Zanzibar[note 3] x[note 12]'')"
  by (simp add: prog_defs ascii_db_def ok_simps)

lemma zanzibar_clean:
  "clean_country_name ascii_db (Some (asc ''Zanzibar[note 3] x[note 12]'')) = asc ''Zanzibar x''"
  by (simp add: prog_defs ascii_db_def ok_simps)

theorem clean_leaves_no_marker_witness:
  "brackets_open_markers ascii_db (asc ''Zanzibar[note 3] x[note 12]'') \<and>
   \<not> has_marker ascii_db (clean_country_name ascii_db (Some (asc ''Zanzibar[note 3] x[note 12]''))) \<and>
   clean_country_name ascii_db (Some (asc ''Zanzibar[note 3] x[note 12]'')) = asc ''Zanzibar x''"
  using clean_leaves_no_marker [OF zanzibar_brackets] zanzibar_brackets zanzibar_clean
  by simp

lemma nested_clean:
  "clean_country_name ascii_db (Some (asc ''[note [note 1]1]'')) = asc ''[note 1]''"
  by (simp add: prog_defs ascii_db_def ok_simps)

lemma spaced_clean:
  "clean_country_name ascii_db (Some (asc ''A[note  7]'')) = asc ''A[note 7]''"
  by (simp add: prog_defs ascii_db_def ok_simps)

lemma marker_found:
  "has_marker ascii_db (asc ''[note 1]'') \<and> has_marker ascii_db (asc ''A[note 7]'')"
  by (simp add: has_marker_def prog_defs ascii_db_def ok_simps)

text \<open>
  C6 as stated fails. The markers are removed in one pass from left to right, before the
  white space is collapsed: removing the inner marker of \<^verbatim>\<open>[note [note 1]1]\<close> leaves the
  marker \<^verbatim>\<open>[note 1]\<close>, and the two blanks of \<^verbatim>\<open>A[note  7]\<close>, which is no marker, are
  collapsed into one afterwards.
\<close>

theorem marker_survives_clean:
  "has_marker ascii_db (clean_country_name ascii_db (Some (asc ''[note [note 1]1]''))) \<and>
   has_marker ascii_db (clean_country_name ascii_db (Some (asc ''A[note  7]'')))"
  by (simp add: nested_clean spaced_clean marker_found)

section \<open>\<^verbatim>\<open>fix_incomplete_name\<close>\<close>

lemma phrase_matches:
  "rx_matches U (phrase_pat sfx) p w r g \<longleftrightarrow> is_phrase U sfx w \<and> g = [w]"
proof
  assume "rx_matches U (phrase_pat sfx) p w r g"
  then show "is_phrase U sfx w \<and> g = [w]"
    by (auto simp: phrase_pat_def rep_ok_star rep_ok_plus in_cls_Word_Space in_cls_Space
        is_phrase_def)
next
  assume "is_phrase U sfx w \<and> g = [w]"
  then obtain a c b where h: "w = a @ c @ b @ sfx" "a \<noteq> []"
    "list_all (\<lambda>x. u_alnum U x \<or> x = 95 \<or> u_space U x) a" "c = [] \<or> c = asc '',''"
    "list_all (u_space U) b" "g = [w]"
    unfolding is_phrase_def by blast
  have 1: "rx_matches U (Rep (Union Word Space) 1 None) p a (c @ b @ sfx @ r) []"
    using h(2,3) by (simp add: rep_ok_plus in_cls_Word_Space)
  have 2: "rx_matches U (Opt (Lit (asc '',''))) (p + length a) c (b @ sfx @ r) []"
    using h(4) by auto
  have 3: "rx_matches U (Rep Space 0 None) (p + length a + length c) b (sfx @ r) []"
    using h(5) by (simp add: rep_ok_star in_cls_Space)
  have 4: "rx_matches U (Lit sfx) (p + length a + length c + length b) sfx r []"
    by simp
  have 34: "rx_matches U (Seq (Rep Space 0 None) (Lit sfx)) (p + length a + length c) (b @ sfx) r []"
    using 3 4 by (simp only: rx_matches.simps) (metis append_Nil)
  have 234: "rx_matches U (Seq (Opt (Lit (asc '',''))) (Seq (Rep Space 0 None) (Lit sfx)))
      (p + length a) (c @ b @ sfx) r []"
    using 2 34 by (simp only: rx_matches.simps(4)) (metis append_Nil append_assoc)
  have "rx_matches U (Seq (Rep (Union Word Space) 1 None)
      (Seq (Opt (Lit (asc '',''))) (Seq (Rep Space 0 None) (Lit sfx)))) p (a @ c @ b @ sfx) r []"
    using 1 234 by (simp only: rx_matches.simps(4)) (metis append_Nil append_assoc)
  then show "rx_matches U (phrase_pat sfx) p w r g"
    using h(1,6) by (simp add: phrase_pat_def)
qed

lemma trailing_codes_paren:
  "rx_matches U trailing_codes_pat p w r g \<Longrightarrow> 40 \<in> set w"
  by (auto simp: trailing_codes_pat_def asc_def)

lemma no_paren_sub:
  assumes "40 \<notin> set t"
  shows "re_sub U trailing_codes_pat t = t"
  unfolding re_sub_def
proof (rule sub_from_identity)
  fix p r assume "suffix r t"
  then have sub: "set r \<subseteq> set t" by (rule set_mono_suffix)
  have "\<not> rx_matches U trailing_codes_pat p w r' g" if "r = w @ r'" for w r' g
  proof
    assume "rx_matches U trailing_codes_pat p w r' g"
    then have "40 \<in> set w" by (rule trailing_codes_paren)
    with that sub assms show False by auto
  qed
  then show "match_at U trailing_codes_pat p r = None"
    by (simp add: match_at_None_iff)
qed

lemma phrase_no_paren:
  assumes "unicode_ok U" "sfx = asc ''Republic of'' \<or> sfx = asc ''Democratic Republic of the''"
    "is_phrase U sfx w"
  shows "40 \<notin> set w"
proof -
  from assms(3) obtain a c b where h: "w = a @ c @ b @ sfx"
    "list_all (\<lambda>x. u_alnum U x \<or> x = 95 \<or> u_space U x) a" "c = [] \<or> c = asc '',''"
    "list_all (u_space U) b"
    unfolding is_phrase_def by blast
  have al: "\<not> u_alnum U 40" and sp: "\<not> u_space U 40"
    using assms(1) by (simp_all add: ok_alnum ok_space ascii_alnum_def ascii_space_def)
  have a: "40 \<notin> set a" using h(2) al sp by (auto simp: list_all_iff)
  have c: "40 \<notin> set c" using h(3) by (auto simp: asc_def)
  have b: "40 \<notin> set b" using h(4) sp by (auto simp: list_all_iff)
  have s: "40 \<notin> set sfx" using assms(2) by (auto simp: asc_def)
  from a b c s h(1) show ?thesis by simp
qed

lemma search_phrase_Some:
  assumes "re_search U (phrase_pat sfx) raw = Some m"
  shows "m_groups m = [slice raw (m_start m) (m_end m)] \<and>
         is_phrase U sfx (slice raw (m_start m) (m_end m))"
proof -
  from search_from_Some [OF assms [unfolded re_search_def]] obtain i s' where
    h: "i \<le> length raw" "match_at U (phrase_pat sfx) (0 + i) (drop i raw) = Some (m, s')"
    by blast
  from match_at_Some [OF h(2)] obtain w g where
    m: "drop i raw = w @ s'" "m = \<lparr>m_start = 0 + i, m_end = 0 + i + length w, m_groups = g\<rparr>"
      "rx_matches U (phrase_pat sfx) (0 + i) w s' g"
    by blast
  from m(3) have p: "is_phrase U sfx w" "g = [w]" by (simp_all add: phrase_matches)
  have "slice raw (m_start m) (m_end m) = w"
    using m(1,2) by (simp add: slice_def)
  with p m(2) show ?thesis by simp
qed

lemma search_phrase_None_iff:
  "re_search U (phrase_pat sfx) raw = None \<longleftrightarrow>
     \<not> (\<exists>pre w post. raw = pre @ w @ post \<and> is_phrase U sfx w)"
proof
  assume n: "re_search U (phrase_pat sfx) raw = None"
  show "\<not> (\<exists>pre w post. raw = pre @ w @ post \<and> is_phrase U sfx w)"
  proof
    assume "\<exists>pre w post. raw = pre @ w @ post \<and> is_phrase U sfx w"
    then obtain pre w post where h: "raw = pre @ w @ post" "is_phrase U sfx w" by blast
    have "length pre \<le> length raw" using h(1) by simp
    with n have "match_at U (phrase_pat sfx) (0 + length pre) (drop (length pre) raw) = None"
      unfolding re_search_def search_from_None_iff by blast
    moreover have "drop (length pre) raw = w @ post" using h(1) by simp
    ultimately have "\<not> rx_matches U (phrase_pat sfx) (0 + length pre) w post [w]"
      unfolding match_at_None_iff by blast
    with h(2) show False by (simp add: phrase_matches)
  qed
next
  assume n: "\<not> (\<exists>pre w post. raw = pre @ w @ post \<and> is_phrase U sfx w)"
  have "match_at U (phrase_pat sfx) (0 + i) (drop i raw) = None" for i
    unfolding match_at_None_iff
  proof (intro allI impI)
    fix w r g assume d: "drop i raw = w @ r"
    have "raw = take i raw @ w @ r" using d by (metis append_take_drop_id)
    with n have "\<not> is_phrase U sfx w" by blast
    then show "\<not> rx_matches U (phrase_pat sfx) (0 + i) w r g"
      by (simp add: phrase_matches)
  qed
  then show "re_search U (phrase_pat sfx) raw = None"
    unfolding re_search_def search_from_None_iff by blast
qed

lemma suffixes_exclusive:
  "\<not> (suffix (asc ''Republic of'') n \<and> suffix (asc ''Democratic Republic of the'') n)"
proof
  assume a: "suffix (asc ''Republic of'') n \<and> suffix (asc ''Democratic Republic of the'') n"
  then obtain u where u: "n = u @ asc ''Republic of''"
    unfolding suffix_def by blast
  from a obtain v where v: "n = v @ asc ''Democratic Republic of the''"
    unfolding suffix_def by blast
  have "last n = 102" by (subst u) (simp add: asc_def)
  moreover have "last n = 101" by (subst v) (simp add: asc_def)
  ultimately show False by simp
qed

lemma fix_unchanged_long: "25 < length name \<Longrightarrow> fix_incomplete_name U name raw = Inr name"
  by (simp add: fix_incomplete_name_def)

lemma fix_unchanged_other:
  assumes "\<not> suffix (asc ''Republic of'') name"
    "\<not> suffix (asc ''Democratic Republic of the'') name"
  shows "fix_incomplete_name U name raw = Inr name"
proof -
  from assms have "name \<noteq> asc ''Republic of''" "name \<noteq> asc ''Democratic Republic of the''"
    by auto
  with assms show ?thesis
    by (simp add: fix_incomplete_name_def patterns_def)
qed

lemma fix_loop_suffix:
  assumes "sfx = asc ''Republic of'' \<or> sfx = asc ''Democratic Republic of the''" "suffix sfx name"
  shows "fix_loop U name raw patterns =
     (case re_search U (phrase_pat sfx) raw of
        None \<Rightarrow> Inr name
      | Some m \<Rightarrow>
          (case group_exn m 1 of
             Inl e \<Rightarrow> Inl e
           | Inr full_name \<Rightarrow> Inr (py_strip U (re_sub U trailing_codes_pat full_name))))"
proof -
  from assms(1) show ?thesis
  proof
    assume s: "sfx = asc ''Republic of''"
    with assms(2) suffixes_exclusive [of name]
    have n: "\<not> suffix (asc ''Democratic Republic of the'') name"
      "name \<noteq> asc ''Democratic Republic of the''"
      by auto
    show ?thesis
      using assms(2) n s by (simp add: patterns_def split: option.splits)
  next
    assume s: "sfx = asc ''Democratic Republic of the''"
    with assms(2) suffixes_exclusive [of name]
    have n: "\<not> suffix (asc ''Republic of'') name" "name \<noteq> asc ''Republic of''"
      by auto
    show ?thesis
      using assms(2) n s by (simp add: patterns_def split: option.splits)
  qed
qed

lemma fix_not_found:
  assumes "sfx = asc ''Republic of'' \<or> sfx = asc ''Democratic Republic of the''"
    "suffix sfx name" "re_search U (phrase_pat sfx) raw = None"
  shows "fix_incomplete_name U name raw = Inr name"
  using assms(3) by (simp add: fix_incomplete_name_def fix_loop_suffix [OF assms(1,2)])

lemma fix_found:
  assumes "unicode_ok U" "sfx = asc ''Republic of'' \<or> sfx = asc ''Democratic Republic of the''"
    "suffix sfx name" "length name \<le> 25" "re_search U (phrase_pat sfx) raw = Some m"
  shows "is_phrase U sfx (slice raw (m_start m) (m_end m)) \<and>
         re_sub U trailing_codes_pat (slice raw (m_start m) (m_end m)) =
           slice raw (m_start m) (m_end m) \<and>
         fix_incomplete_name U name raw = Inr (py_strip U (slice raw (m_start m) (m_end m)))"
proof -
  let ?ph = "slice raw (m_start m) (m_end m)"
  from search_phrase_Some [OF assms(5)] have g: "m_groups m = [?ph]" and p: "is_phrase U sfx ?ph"
    by simp_all
  have sub: "re_sub U trailing_codes_pat ?ph = ?ph"
    by (rule no_paren_sub) (rule phrase_no_paren [OF assms(1,2) p])
  have ne: "name \<noteq> []"
    using assms(2,3) by (auto simp: asc_def)
  have "fix_incomplete_name U name raw = Inr (py_strip U ?ph)"
    using assms(4,5) ne g sub
    by (simp add: fix_incomplete_name_def fix_loop_suffix [OF assms(2,3)] group_exn_def group_def)
  with p sub show ?thesis by simp
qed

lemma fix_total: "unicode_ok U \<Longrightarrow> \<exists>n. fix_incomplete_name U name raw = Inr n"
proof -
  assume ok: "unicode_ok U"
  let ?s1 = "asc ''Republic of''" and ?s2 = "asc ''Democratic Republic of the''"
  consider (long) "25 < length name"
    | (other) "\<not> suffix ?s1 name" "\<not> suffix ?s2 name"
    | (s1) "length name \<le> 25" "suffix ?s1 name"
    | (s2) "length name \<le> 25" "suffix ?s2 name"
    by fastforce
  then show ?thesis
  proof cases
    case long
    then show ?thesis by (simp add: fix_unchanged_long)
  next
    case other
    then show ?thesis by (simp add: fix_unchanged_other)
  next
    case s1
    show ?thesis
    proof (cases "re_search U (phrase_pat ?s1) raw")
      case None
      from fix_not_found [OF _ s1(2) None] show ?thesis by simp
    next
      case (Some m)
      from fix_found [OF ok _ s1(2,1) Some] show ?thesis by simp
    qed
  next
    case s2
    show ?thesis
    proof (cases "re_search U (phrase_pat ?s2) raw")
      case None
      from fix_not_found [OF _ s2(2) None] show ?thesis by simp
    next
      case (Some m)
      from fix_found [OF ok _ s2(2,1) Some] show ?thesis by simp
    qed
  qed
qed

text \<open>
  The order of the engine's tries for a greedy repetition followed by the rest \<open>f\<close> of the
  pattern: the first result comes from the longest repetition after which the rest can match.
\<close>

lemma greedy_first:
  assumes "concat (map f (greedy P lo None (p, r, c))) = y # ys"
  shows "\<exists>k. k \<le> length r \<and> lo \<le> k \<and> list_all P (take k r) \<and>
           (\<exists>ys'. f (p + k, drop k r, c) = y # ys') \<and>
           (\<forall>k'. k < k' \<and> k' \<le> length r \<and> list_all P (take k' r) \<longrightarrow>
                 f (p + k', drop k' r, c) = [])"
  using assms
proof (induction r arbitrary: lo p ys)
  case Nil
  then have "lo = 0" and "f (p, [], c) = y # ys"
    by (auto split: if_splits)
  then have "0 \<le> length ([]::ustr) \<and> lo \<le> 0 \<and> list_all P (take 0 []) \<and>
      (\<exists>ys'. f (p + 0, drop 0 [], c) = y # ys') \<and>
      (\<forall>k'. 0 < k' \<and> k' \<le> length ([]::ustr) \<and> list_all P (take k' []) \<longrightarrow>
         f (p + k', drop k' [], c) = [])"
    by auto
  then show ?case by blast
next
  case (Cons x xs)
  define G1 where "G1 = (if P x then greedy P (lo - 1) None (Suc p, xs, c) else [])"
  define G2 where "G2 = (if lo = 0 then [(p, x # xs, c)] else [])"
  have split: "concat (map f G1) @ concat (map f G2) = y # ys"
    using Cons.prems by (auto simp: G1_def G2_def split: if_splits)
  show ?case
  proof (cases "concat (map f G1)")
    case Nil
    with split have g2: "concat (map f G2) = y # ys" by simp
    then have lo: "lo = 0" and here: "f (p, x # xs, c) = y # ys"
      by (auto simp: G2_def split: if_splits)
    have none: "f st = []" if "st \<in> set G1" for st
      using Nil that by auto
    have later: "f (p + k', drop k' (x # xs), c) = []"
      if "0 < k'" "k' \<le> length (x # xs)" "list_all P (take k' (x # xs))" for k'
    proof -
      from that(1) obtain j where j: "k' = Suc j" by (cases k') auto
      from that(2,3) j have px: "P x" and pj: "list_all P (take j xs)" and jl: "j \<le> length xs"
        by simp_all
      have "rep_ok P 0 None (take j xs)" using pj by (simp add: rep_ok_def)
      moreover have "xs = take j xs @ drop j xs" by simp
      moreover have "length (take j xs) = j" using jl by simp
      ultimately have "(Suc p + j, drop j xs, c) \<in> set (greedy P 0 None (Suc p, xs, c))"
        unfolding greedy_iff by metis
      then have "(Suc p + j, drop j xs, c) \<in> set G1"
        using px lo by (simp add: G1_def)
      from none [OF this] show ?thesis using j by simp
    qed
    have "0 \<le> length (x # xs) \<and> lo \<le> 0 \<and> list_all P (take 0 (x # xs)) \<and>
      (\<exists>ys'. f (p + 0, drop 0 (x # xs), c) = y # ys') \<and>
      (\<forall>k'. 0 < k' \<and> k' \<le> length (x # xs) \<and> list_all P (take k' (x # xs)) \<longrightarrow>
         f (p + k', drop k' (x # xs), c) = [])"
      using lo here later by simp
    then show ?thesis by blast
  next
    case (Cons z zs)
    with split have yz: "z = y" by simp
    from Cons have px: "P x" by (auto simp: G1_def split: if_splits)
    from Cons yz px have "concat (map f (greedy P (lo - 1) None (Suc p, xs, c))) = y # zs"
      by (simp add: G1_def)
    from Cons.IH [OF this] obtain k where k: "k \<le> length xs" "lo - 1 \<le> k"
      "list_all P (take k xs)" "\<exists>ys'. f (Suc p + k, drop k xs, c) = y # ys'"
      "\<forall>k'. k < k' \<and> k' \<le> length xs \<and> list_all P (take k' xs) \<longrightarrow>
         f (Suc p + k', drop k' xs, c) = []"
      by blast
    have later: "f (p + k', drop k' (x # xs), c) = []"
      if "Suc k < k'" "k' \<le> length (x # xs)" "list_all P (take k' (x # xs))" for k'
    proof -
      from that(1) obtain j where j: "k' = Suc j" "k < j" by (cases k') auto
      from that(2,3) j have "list_all P (take j xs)" "j \<le> length xs" by simp_all
      with k(5) j(2) have "f (Suc p + j, drop j xs, c) = []" by blast
      then show ?thesis using j by simp
    qed
    have "Suc k \<le> length (x # xs) \<and> lo \<le> Suc k \<and> list_all P (take (Suc k) (x # xs)) \<and>
      (\<exists>ys'. f (p + Suc k, drop (Suc k) (x # xs), c) = y # ys') \<and>
      (\<forall>k'. Suc k < k' \<and> k' \<le> length (x # xs) \<and> list_all P (take k' (x # xs)) \<longrightarrow>
         f (p + k', drop k' (x # xs), c) = [])"
      using k(1-4) px later by simp
    then show ?thesis by blast
  qed
qed

text \<open>The rest of a phrase pattern after the leading run: \<^verbatim>\<open>,?\s*\<close> and the suffix.\<close>

lemma phrase_rest_matches:
  "rx_matches U (Seq (Opt (Lit (asc '',''))) (Seq (Rep Space 0 None) (Lit sfx))) q w r g \<longleftrightarrow>
     (\<exists>c b. w = c @ b @ sfx \<and> (c = [] \<or> c = asc '','') \<and> list_all (u_space U) b \<and> g = [])"
proof
  assume "rx_matches U (Seq (Opt (Lit (asc '',''))) (Seq (Rep Space 0 None) (Lit sfx))) q w r g"
  then show "\<exists>c b. w = c @ b @ sfx \<and> (c = [] \<or> c = asc '','') \<and> list_all (u_space U) b \<and> g = []"
    by (auto simp: rep_ok_star in_cls_Space)
next
  assume "\<exists>c b. w = c @ b @ sfx \<and> (c = [] \<or> c = asc '','') \<and> list_all (u_space U) b \<and> g = []"
  then obtain c b where h: "w = c @ b @ sfx" "c = [] \<or> c = asc '',''" "list_all (u_space U) b"
    "g = []"
    by blast
  have 2: "rx_matches U (Opt (Lit (asc '',''))) q c (b @ sfx @ r) []"
    using h(2) by auto
  have 3: "rx_matches U (Rep Space 0 None) (q + length c) b (sfx @ r) []"
    using h(3) by (simp add: rep_ok_star in_cls_Space)
  have 4: "rx_matches U (Lit sfx) (q + length c + length b) sfx r []"
    by simp
  have 34: "rx_matches U (Seq (Rep Space 0 None) (Lit sfx)) (q + length c) (b @ sfx) r []"
    using 3 4 by (simp only: rx_matches.simps) (metis append_Nil)
  have "rx_matches U (Seq (Opt (Lit (asc '',''))) (Seq (Rep Space 0 None) (Lit sfx)))
      q (c @ b @ sfx) r []"
    using 2 34 by (simp only: rx_matches.simps(4)) (metis append_Nil append_assoc)
  then show "rx_matches U (Seq (Opt (Lit (asc '',''))) (Seq (Rep Space 0 None) (Lit sfx))) q w r g"
    using h(1,4) by simp
qed

lemma phrase_rest_feasible:
  assumes "drop k r = c @ b @ sfx @ rest" "c = [] \<or> c = asc '',''" "list_all (u_space U) b"
  shows "rxm U (Seq (Opt (Lit (asc '',''))) (Seq (Rep Space 0 None) (Lit sfx))) (q, drop k r, []) \<noteq> []"
proof -
  let ?X = "Seq (Opt (Lit (asc '',''))) (Seq (Rep Space 0 None) (Lit sfx))"
  have "rx_matches U ?X q (c @ b @ sfx) rest []"
    unfolding phrase_rest_matches using assms(2,3) by blast
  moreover have "drop k r = (c @ b @ sfx) @ rest" using assms(1) by simp
  ultimately have "(q + length (c @ b @ sfx), rest, [] @ []) \<in> set (rxm U ?X (q, drop k r, []))"
    unfolding rxm_iff by blast
  then show ?thesis by (metis empty_iff list.set(1))
qed

text \<open>
  The match of the pattern of \<^verbatim>\<open>Republic of\<close> at a position is at least as long as every phrase
  that starts there.
\<close>

lemma phrase_match_longest:
  assumes ok: "unicode_ok U"
    and m: "match_at U (phrase_pat (asc ''Republic of'')) p r = Some (m, s')"
    and pre: "prefix w' r" and ph: "is_phrase U (asc ''Republic of'') w'"
  shows "length w' \<le> m_end m - m_start m"
proof -
  let ?R = "asc ''Republic of''"
  define P where "P = (\<lambda>x. u_alnum U x \<or> x = 95 \<or> u_space U x)"
  define X where "X = Seq (Opt (Lit (asc '',''))) (Seq (Rep Space 0 None) (Lit ?R))"
  define L where "L = concat (map (rxm U X) (greedy P (Suc 0) None (p, r, [])))"
  have c44: "\<not> P 44" and s44: "\<not> u_space U 44" and s82: "\<not> u_space U 82"
    using ok by (simp_all add: P_def ok_alnum ok_space ascii_alnum_def ascii_space_def)
  have hdR: "?R = 82 # asc ''epublic of''" by (simp add: asc_def)
  have rx: "rxm U (phrase_pat ?R) (p, r, []) =
      map (\<lambda>(p', r', c'). (p', r', c' @ [take (p' - p) r])) L"
    by (simp add: phrase_pat_def X_def L_def P_def in_cls_Word_Space)
  from m obtain y ys where L: "L = y # ys" and me: "m_end m = fst y" and ms: "m_start m = p"
    unfolding match_at_def rx by (cases L) (auto split: prod.splits)
  from greedy_first [OF L [unfolded L_def]] obtain k ys' where
    k: "k \<le> length r" "list_all P (take k r)"
       "rxm U X (p + k, drop k r, []) = y # ys'"
       "\<forall>k'. k < k' \<and> k' \<le> length r \<and> list_all P (take k' r) \<longrightarrow>
             rxm U X (p + k', drop k' r, []) = []"
    by blast
  have "y \<in> set (rxm U X (p + k, drop k r, []))" using k(3) by simp
  then obtain w2 r2 g where
    y: "y = (p + k + length w2, r2, [] @ g)" "drop k r = w2 @ r2" "rx_matches U X (p + k) w2 r2 g"
    unfolding rxm_iff by blast
  from y(3) obtain c b where w2: "w2 = c @ b @ ?R" "c = [] \<or> c = asc '',''" "list_all (u_space U) b"
    unfolding X_def phrase_rest_matches by blast
  have len: "m_end m - m_start m = k + length w2"
    using me ms y(1) by simp
  from ph obtain a' c' b' where w': "w' = a' @ c' @ b' @ ?R" "a' \<noteq> []" "list_all P a'"
    "c' = [] \<or> c' = asc '',''" "list_all (u_space U) b'"
    unfolding is_phrase_def P_def by blast
  from pre w'(1) obtain rest where r: "r = a' @ c' @ b' @ ?R @ rest"
    by (auto simp: prefix_def)
  have feasible: "k' \<le> k"
    if "k' \<le> length r" "list_all P (take k' r)" "drop k' r = c1 @ b1 @ ?R @ rest1"
       "c1 = [] \<or> c1 = asc '',''" "list_all (u_space U) b1" for k' c1 b1 rest1
  proof (rule ccontr)
    assume "\<not> k' \<le> k"
    with k(4) that(1,2) have "rxm U X (p + k', drop k' r, []) = []" by simp
    moreover have "rxm U X (p + k', drop k' r, []) \<noteq> []"
      unfolding X_def using that(3,4,5) by (rule phrase_rest_feasible)
    ultimately show False by simp
  qed
  from w'(4) show ?thesis
  proof
    assume c': "c' = []"
    have bP: "list_all P b'" using w'(5) by (auto simp: P_def list_all_iff)
    have r': "r = (a' @ b') @ ?R @ rest" using r c' by simp
    have 1: "length (a' @ b') \<le> length r" by (subst r') simp
    have 2: "list_all P (take (length (a' @ b')) r)"
      by (subst r') (simp add: w'(3) bP)
    have 3: "drop (length (a' @ b')) r = [] @ [] @ ?R @ rest"
      by (subst r') simp
    have "length (a' @ b') \<le> k"
      using 1 2 3 by (rule feasible) simp_all
    then show ?thesis using len w'(1) w2(1) c' by simp
  next
    assume c': "c' = asc '',''"
    have r': "r = a' @ 44 # b' @ ?R @ rest" using r c' by (simp add: asc_def)
    have nth: "r ! length a' = 44" by (subst r') simp
    have 1: "length a' \<le> length r" by (subst r') simp
    have 2: "list_all P (take (length a') r)" by (subst r') (simp add: w'(3))
    have 3: "drop (length a') r = c' @ b' @ ?R @ rest" by (subst r) simp
    have le: "length a' \<le> k"
      using 1 2 3 w'(4,5) by (rule feasible)
    have "\<not> length a' < k"
    proof
      assume lt: "length a' < k"
      then have "take k r ! length a' = r ! length a'" by simp
      moreover have "length a' < length (take k r)" using lt k(1) by simp
      ultimately have "P (r ! length a')"
        using k(2) by (metis list_all_length)
      with nth c44 show False by simp
    qed
    with le have ka: "k = length a'" by simp
    have eq: "c @ b @ ?R @ r2 = 44 # b' @ ?R @ rest"
      using y(2) w2(1) ka by (subst (asm) r') simp
    have c: "c = asc '',''"
    proof (rule ccontr)
      assume "c \<noteq> asc '',''"
      with w2(2) have cn: "c = []" by simp
      show False
      proof (cases b)
        case Nil
        with eq cn show False by (simp add: hdR)
      next
        case (Cons x xs)
        with eq cn have "x = 44" by simp
        with Cons w2(3) s44 show False by simp
      qed
    qed
    with eq have eq2: "b @ ?R @ r2 = b' @ ?R @ rest" by (simp add: asc_def)
    have "\<not> length b < length b'"
    proof
      assume lt: "length b < length b'"
      have "(b @ ?R @ r2) ! length b = 82" by (simp add: hdR)
      moreover have "(b' @ ?R @ rest) ! length b = b' ! length b"
        using lt by (simp add: nth_append)
      ultimately have "b' ! length b = 82" using eq2 by simp
      moreover have "u_space U (b' ! length b)"
        using w'(5) lt by (metis list_all_length)
      ultimately show False using s82 by simp
    qed
    then show ?thesis using len w'(1) w2(1) c c' ka by simp
  qed
qed

lemma suffix_democratic_long:
  "suffix (asc ''Democratic Republic of the'') name \<Longrightarrow> 25 < length name"
  by (auto simp: suffix_def)

lemma search_phrase_first:
  assumes ok: "unicode_ok U"
    and s: "re_search U (phrase_pat (asc ''Republic of'')) raw = Some m"
  shows "m_start m \<le> m_end m \<and> m_end m \<le> length raw \<and>
    (\<forall>j w. j < m_start m \<and> prefix w (drop j raw) \<longrightarrow> \<not> is_phrase U (asc ''Republic of'') w) \<and>
    (\<forall>w. prefix w (drop (m_start m) raw) \<and> is_phrase U (asc ''Republic of'') w \<longrightarrow>
         length w \<le> m_end m - m_start m)"
proof -
  let ?R = "asc ''Republic of''"
  from search_from_Some [OF s [unfolded re_search_def]] obtain i s' where
    h: "i \<le> length raw" "match_at U (phrase_pat ?R) (0 + i) (drop i raw) = Some (m, s')"
       "\<forall>j<i. match_at U (phrase_pat ?R) (0 + j) (drop j raw) = None"
    by blast
  from match_at_Some [OF h(2)] obtain w g where
    m: "drop i raw = w @ s'" "m = \<lparr>m_start = 0 + i, m_end = 0 + i + length w, m_groups = g\<rparr>"
    by blast
  have st: "m_start m = i" using m(2) by simp
  have "length (drop i raw) = length w + length s'" using m(1) by simp
  then have en: "m_end m \<le> length raw" using m(2) h(1) by simp
  have left: "\<not> is_phrase U ?R w1" if "j < m_start m" "prefix w1 (drop j raw)" for j w1
  proof
    assume p: "is_phrase U ?R w1"
    from that(2) obtain r1 where "drop j raw = w1 @ r1" by (auto simp: prefix_def)
    moreover have "match_at U (phrase_pat ?R) (0 + j) (drop j raw) = None"
      using h(3) that(1) st by simp
    ultimately have "\<not> rx_matches U (phrase_pat ?R) (0 + j) w1 r1 [w1]"
      unfolding match_at_None_iff by blast
    with p show False by (simp add: phrase_matches)
  qed
  have long: "length w1 \<le> m_end m - m_start m"
    if "prefix w1 (drop (m_start m) raw)" "is_phrase U ?R w1" for w1
    using ok h(2) that(1) [unfolded st] that(2) by (rule phrase_match_longest)
  from st en m(2) left long show ?thesis by auto
qed

text \<open>
  C2, as amended. A name longer than 25 characters, and a name that ends in neither suffix,
  is returned as it is. A name that ends in \<^verbatim>\<open>Democratic Republic of the\<close> has at least 26
  characters, so it is returned as it is and the pattern of that suffix is never searched
  for. For a name of at most 25 characters that ends in (or is) \<^verbatim>\<open>Republic of\<close>, the
  description is searched for a phrase ending in \<^verbatim>\<open>Republic of\<close>; the search fails exactly
  when no part of the description is such a phrase, and then the name is returned as it is.
  Otherwise the match is such a phrase; no such phrase starts before it in the description,
  and no such phrase that starts where it starts is longer, which tells it from every other
  phrase of the description. It holds no parenthesis, so that removing code groups leaves it
  as it is, and the name returned is the phrase with the blanks at its two ends stripped.
\<close>

theorem repair_from_description:
  assumes "unicode_ok U"
  shows "(25 < length name1 \<longrightarrow> fix_incomplete_name U name1 raw1 = Inr name1) \<and>
    (\<not> suffix (asc ''Republic of'') name2 \<and> \<not> suffix (asc ''Democratic Republic of the'') name2
       \<longrightarrow> fix_incomplete_name U name2 raw2 = Inr name2) \<and>
    (suffix (asc ''Democratic Republic of the'') name4 \<longrightarrow>
       25 < length name4 \<and> fix_incomplete_name U name4 raw4 = Inr name4) \<and>
    (suffix (asc ''Republic of'') name3 \<and> re_search U (phrase_pat (asc ''Republic of'')) raw3 = None
       \<longrightarrow> fix_incomplete_name U name3 raw3 = Inr name3) \<and>
    (suffix (asc ''Republic of'') name \<and> length name \<le> 25 \<and>
     re_search U (phrase_pat (asc ''Republic of'')) raw = Some m \<longrightarrow>
       m_start m \<le> m_end m \<and> m_end m \<le> length raw \<and>
       is_phrase U (asc ''Republic of'') (slice raw (m_start m) (m_end m)) \<and>
       (\<forall>j w. j < m_start m \<and> prefix w (drop j raw) \<longrightarrow> \<not> is_phrase U (asc ''Republic of'') w) \<and>
       (\<forall>w. prefix w (drop (m_start m) raw) \<and> is_phrase U (asc ''Republic of'') w \<longrightarrow>
            length w \<le> m_end m - m_start m) \<and>
       re_sub U trailing_codes_pat (slice raw (m_start m) (m_end m)) =
         slice raw (m_start m) (m_end m) \<and>
       fix_incomplete_name U name raw = Inr (py_strip U (slice raw (m_start m) (m_end m)))) \<and>
    ((re_search U (phrase_pat (asc ''Republic of'')) raw = None) =
       (\<not> (\<exists>pre w post. raw = pre @ w @ post \<and> is_phrase U (asc ''Republic of'') w)))"
proof -
  let ?R = "asc ''Republic of''" and ?D = "asc ''Democratic Republic of the''"
  have sfx: "?R = ?R \<or> ?R = ?D" by simp
  have 1: "25 < length name1 \<longrightarrow> fix_incomplete_name U name1 raw1 = Inr name1"
    by (simp add: fix_unchanged_long)
  have 2: "\<not> suffix ?R name2 \<and> \<not> suffix ?D name2 \<longrightarrow> fix_incomplete_name U name2 raw2 = Inr name2"
    by (simp add: fix_unchanged_other)
  have 3: "suffix ?D name4 \<longrightarrow> 25 < length name4 \<and> fix_incomplete_name U name4 raw4 = Inr name4"
    using suffix_democratic_long [of name4] by (simp add: fix_unchanged_long)
  have 4: "suffix ?R name3 \<and> re_search U (phrase_pat ?R) raw3 = None
       \<longrightarrow> fix_incomplete_name U name3 raw3 = Inr name3"
    using fix_not_found [OF sfx, of name3 U raw3] by blast
  have 5: "suffix ?R name \<and> length name \<le> 25 \<and> re_search U (phrase_pat ?R) raw = Some m \<longrightarrow>
       m_start m \<le> m_end m \<and> m_end m \<le> length raw \<and>
       is_phrase U ?R (slice raw (m_start m) (m_end m)) \<and>
       (\<forall>j w. j < m_start m \<and> prefix w (drop j raw) \<longrightarrow> \<not> is_phrase U ?R w) \<and>
       (\<forall>w. prefix w (drop (m_start m) raw) \<and> is_phrase U ?R w \<longrightarrow>
            length w \<le> m_end m - m_start m) \<and>
       re_sub U trailing_codes_pat (slice raw (m_start m) (m_end m)) =
         slice raw (m_start m) (m_end m) \<and>
       fix_incomplete_name U name raw = Inr (py_strip U (slice raw (m_start m) (m_end m)))"
  proof (intro impI)
    assume a: "suffix ?R name \<and> length name \<le> 25 \<and> re_search U (phrase_pat ?R) raw = Some m"
    then have a1: "suffix ?R name" and a2: "length name \<le> 25"
      and a3: "re_search U (phrase_pat ?R) raw = Some m"
      by simp_all
    from fix_found [OF assms sfx a1 a2 a3] search_phrase_first [OF assms a3]
    show "m_start m \<le> m_end m \<and> m_end m \<le> length raw \<and>
       is_phrase U ?R (slice raw (m_start m) (m_end m)) \<and>
       (\<forall>j w. j < m_start m \<and> prefix w (drop j raw) \<longrightarrow> \<not> is_phrase U ?R w) \<and>
       (\<forall>w. prefix w (drop (m_start m) raw) \<and> is_phrase U ?R w \<longrightarrow>
            length w \<le> m_end m - m_start m) \<and>
       re_sub U trailing_codes_pat (slice raw (m_start m) (m_end m)) =
         slice raw (m_start m) (m_end m) \<and>
       fix_incomplete_name U name raw = Inr (py_strip U (slice raw (m_start m) (m_end m)))"
      by blast
  qed
  have 6: "(re_search U (phrase_pat ?R) raw = None) =
       (\<not> (\<exists>pre w post. raw = pre @ w @ post \<and> is_phrase U ?R w))"
    by (rule search_phrase_None_iff)
  from 1 2 3 4 5 6 show ?thesis by blast
qed

lemma moldova_search:
  "re_search ascii_db (phrase_pat (asc ''Republic of''))
     (asc ''Split into: Moldova, Republic of (MD, MDA, 498)'') =
   Some \<lparr>m_start = 11, m_end = 32, m_groups = [asc '' Moldova, Republic of'']\<rparr>"
  by (simp add: prog_defs ascii_db_def ok_simps)

lemma moldova_strip:
  "py_strip ascii_db (slice (asc ''Split into: Moldova, Republic of (MD, MDA, 498)'') 11 32) =
     asc ''Moldova, Republic of''"
  by (simp add: prog_defs ascii_db_def ok_simps)

lemma bare_search:
  "re_search ascii_db (phrase_pat (asc ''Republic of'')) (asc ''Republic of'') = None"
  by (simp add: prog_defs ascii_db_def ok_simps)

lemma suffix_examples:
  "suffix (asc ''Republic of'') (asc ''Republic of'') \<and>
   \<not> suffix (asc ''Republic of'') (asc ''Myanmar'') \<and>
   \<not> suffix (asc ''Democratic Republic of the'') (asc ''Myanmar'') \<and>
   suffix (asc ''Democratic Republic of the'') (asc ''Democratic Republic of the'')"
  by (simp add: asc_def suffix_to_prefix)

theorem repair_from_description_witness:
  "unicode_ok ascii_db \<and>
   25 < length (asc ''Congo, Democratic Republic of the'') \<and>
   fix_incomplete_name ascii_db (asc ''Congo, Democratic Republic of the'') [] =
     Inr (asc ''Congo, Democratic Republic of the'') \<and>
   fix_incomplete_name ascii_db (asc ''Myanmar'') (asc ''Republic of'') = Inr (asc ''Myanmar'') \<and>
   suffix (asc ''Democratic Republic of the'') (asc ''Democratic Republic of the'') \<and>
   fix_incomplete_name ascii_db (asc ''Democratic Republic of the'')
     (asc ''Zaire, Democratic Republic of the'') = Inr (asc ''Democratic Republic of the'') \<and>
   re_search ascii_db (phrase_pat (asc ''Republic of'')) (asc ''Republic of'') = None \<and>
   fix_incomplete_name ascii_db (asc ''Republic of'') (asc ''Republic of'') =
     Inr (asc ''Republic of'') \<and>
   re_search ascii_db (phrase_pat (asc ''Republic of''))
     (asc ''Split into: Moldova, Republic of (MD, MDA, 498)'') =
     Some \<lparr>m_start = 11, m_end = 32, m_groups = [asc '' Moldova, Republic of'']\<rparr> \<and>
   fix_incomplete_name ascii_db (asc ''Republic of'')
     (asc ''Split into: Moldova, Republic of (MD, MDA, 498)'') = Inr (asc ''Moldova, Republic of'')"
proof -
  note t = repair_from_description [OF unicode_ok_ascii_db,
      of "asc ''Congo, Democratic Republic of the''" "[]" "asc ''Myanmar''" "asc ''Republic of''"
         "asc ''Democratic Republic of the''" "asc ''Zaire, Democratic Republic of the''"
         "asc ''Republic of''" "asc ''Republic of''" "asc ''Republic of''"
         "asc ''Split into: Moldova, Republic of (MD, MDA, 498)''"
         "\<lparr>m_start = 11, m_end = 32, m_groups = [asc '' Moldova, Republic of'']\<rparr>"]
  have 1: "fix_incomplete_name ascii_db (asc ''Congo, Democratic Republic of the'') [] =
     Inr (asc ''Congo, Democratic Republic of the'')"
    using t [THEN conjunct1] by simp
  have 2: "fix_incomplete_name ascii_db (asc ''Myanmar'') (asc ''Republic of'') = Inr (asc ''Myanmar'')"
    using t [THEN conjunct2, THEN conjunct1] suffix_examples by simp
  have 3: "fix_incomplete_name ascii_db (asc ''Democratic Republic of the'')
     (asc ''Zaire, Democratic Republic of the'') = Inr (asc ''Democratic Republic of the'')"
    using t [THEN conjunct2, THEN conjunct2, THEN conjunct1] suffix_examples by simp
  have 4: "fix_incomplete_name ascii_db (asc ''Republic of'') (asc ''Republic of'') =
     Inr (asc ''Republic of'')"
    using t [THEN conjunct2, THEN conjunct2, THEN conjunct2, THEN conjunct1]
      suffix_examples bare_search by simp
  have ante: "suffix (asc ''Republic of'') (asc ''Republic of'') \<and>
      length (asc ''Republic of'') \<le> 25 \<and>
      re_search ascii_db (phrase_pat (asc ''Republic of''))
        (asc ''Split into: Moldova, Republic of (MD, MDA, 498)'') =
      Some \<lparr>m_start = 11, m_end = 32, m_groups = [asc '' Moldova, Republic of'']\<rparr>"
    using suffix_examples moldova_search by simp
  note f = t [THEN conjunct2, THEN conjunct2, THEN conjunct2, THEN conjunct2, THEN conjunct1,
      THEN mp, OF ante]
  have 5: "fix_incomplete_name ascii_db (asc ''Republic of'')
     (asc ''Split into: Moldova, Republic of (MD, MDA, 498)'') = Inr (asc ''Moldova, Republic of'')"
    using f [THEN conjunct2, THEN conjunct2, THEN conjunct2, THEN conjunct2, THEN conjunct2,
        THEN conjunct2]
    by (simp add: moldova_strip)
  from 1 2 3 4 5 suffix_examples show ?thesis
    by (simp add: unicode_ok_ascii_db bare_search moldova_search)
qed

lemma korea_search:
  "re_search ascii_db (phrase_pat (asc ''Republic of''))
     (asc ''Divided into: Korea, Republic of (KR, KOR, 410)'') =
   Some \<lparr>m_start = 13, m_end = 32, m_groups = [asc '' Korea, Republic of'']\<rparr>"
  by (simp add: prog_defs ascii_db_def ok_simps)

lemma korea_fix:
  "fix_incomplete_name ascii_db (asc ''Republic of'')
     (asc ''Divided into: Korea, Republic of (KR, KOR, 410)'') = Inr (asc ''Korea, Republic of'')"
  by (simp add: fix_incomplete_name_def patterns_def korea_search group_exn_def group_def
      prog_defs ascii_db_def ok_simps)

text \<open>
  C2 as stated fails: the phrase found in
  \<^verbatim>\<open>Divided into: Korea, Republic of (KR, KOR, 410)\<close> starts with the blank after the colon
  and holds no code group, and the name returned is not that phrase but the phrase stripped.
\<close>

theorem repaired_name_is_not_the_phrase:
  "re_search ascii_db (phrase_pat (asc ''Republic of''))
     (asc ''Divided into: Korea, Republic of (KR, KOR, 410)'') =
     Some \<lparr>m_start = 13, m_end = 32, m_groups = [asc '' Korea, Republic of'']\<rparr> \<and>
   re_sub ascii_db trailing_codes_pat (asc '' Korea, Republic of'') = asc '' Korea, Republic of'' \<and>
   fix_incomplete_name ascii_db (asc ''Republic of'')
     (asc ''Divided into: Korea, Republic of (KR, KOR, 410)'') = Inr (asc ''Korea, Republic of'') \<and>
   asc ''Korea, Republic of'' \<noteq> asc '' Korea, Republic of''"
proof -
  have "re_sub ascii_db trailing_codes_pat (asc '' Korea, Republic of'') = asc '' Korea, Republic of''"
    by (rule no_paren_sub) (simp add: asc_def)
  moreover have "asc ''Korea, Republic of'' \<noteq> asc '' Korea, Republic of''"
    by (simp add: asc_def)
  ultimately show ?thesis
    by (simp only: korea_search korea_fix) simp
qed

section \<open>\<^verbatim>\<open>parse_successors\<close>\<close>

lemma rep_ok_2_3: "rep_ok P 2 (Some 3) w \<longleftrightarrow> (length w = 2 \<or> length w = 3) \<and> list_all P w"
  by (auto simp: rep_ok_def)

lemma rep_ok_3_4: "rep_ok P 3 (Some 4) w \<longleftrightarrow> (length w = 3 \<or> length w = 4) \<and> list_all P w"
  by (auto simp: rep_ok_def)

lemma code_matches:
  assumes "rx_matches U code_pattern p w r g"
  shows "\<exists>g1 g2 g3. g = [g1, g2, g3] \<and> is_triplet U w g1 g2 g3"
proof -
  from assms obtain g1 w1 g2 w2 g3 where
    h: "w = asc ''('' @ g1 @ asc '','' @ w1 @ g2 @ asc '','' @ w2 @ g3 @ asc '')''"
      "g = [g1, g2, g3]" "length g1 = 2" "is_upper g1" "list_all (u_space U) w1"
      "length g2 = 2 \<or> length g2 = 3" "is_upper g2" "list_all (u_space U) w2"
      "length g3 = 3 \<or> length g3 = 4" "is_digits U g3"
    by (auto simp: code_pattern_def rep_ok_exact rep_ok_2_3 rep_ok_3_4 rep_ok_star
        in_cls_Upper in_cls_Digit in_cls_Space is_upper_def is_digits_def)
  have "is_triplet U w g1 g2 g3"
    unfolding is_triplet_def using h by blast
  with h(2) show ?thesis by blast
qed

lemma match_at_span:
  assumes "match_at U rx p r = Some (m, s')"
  shows "m_start m = p \<and> m_end m = p + (length r - length s') \<and> length s' \<le> length r
         \<and> s' = drop (length r - length s') r"
proof -
  from match_at_Some [OF assms] obtain w g where
    h: "r = w @ s'" "m = \<lparr>m_start = p, m_end = p + length w, m_groups = g\<rparr>"
    by blast
  then show ?thesis by simp
qed

lemma finditer_from_sound:
  "m \<in> set (finditer_from U rx p r) \<Longrightarrow>
     \<exists>j s'. j \<le> length r \<and> match_at U rx (p + j) (drop j r) = Some (m, s')"
proof (induction r arbitrary: p rule: length_induct)
  case (1 r)
  show ?case
  proof (cases r)
    case Nil
    show ?thesis
    proof (cases "match_at U rx p []")
      case None
      with "1.prems" Nil show ?thesis by simp
    next
      case (Some a)
      obtain m0 s0 where a: "a = (m0, s0)" by (cases a)
      with "1.prems" Nil Some have "m = m0" by simp
      with Some a Nil have "0 \<le> length r \<and> match_at U rx (p + 0) (drop 0 r) = Some (m, s0)"
        by simp
      then show ?thesis by blast
    qed
  next
    case (Cons x xs)
    have tail: "\<exists>j s'. j \<le> length r \<and> match_at U rx (p + j) (drop j r) = Some (m, s')"
      if "m \<in> set (finditer_from U rx (Suc p) xs)"
    proof -
      from "1.IH" [rule_format, of xs "Suc p"] that Cons obtain j s' where
        "j \<le> length xs" "match_at U rx (Suc p + j) (drop j xs) = Some (m, s')"
        by auto
      then have "Suc j \<le> length r \<and> match_at U rx (p + Suc j) (drop (Suc j) r) = Some (m, s')"
        using Cons by simp
      then show ?thesis by blast
    qed
    show ?thesis
    proof (cases "match_at U rx p (x # xs)")
      case None
      with "1.prems" Cons have "m \<in> set (finditer_from U rx (Suc p) xs)" by simp
      then show ?thesis by (rule tail)
    next
      case (Some a)
      obtain m0 s0 where a: "a = (m0, s0)" by (cases a)
      note sp = match_at_span [OF Some [unfolded a]]
      have here: "\<exists>j s'. j \<le> length r \<and> match_at U rx (p + j) (drop j r) = Some (m, s')"
        if "m = m0"
      proof -
        have "0 \<le> length r \<and> match_at U rx (p + 0) (drop 0 r) = Some (m, s0)"
          using Some a that Cons by simp
        then show ?thesis by blast
      qed
      show ?thesis
      proof (cases "length s0 < length (x # xs)")
        case True
        with "1.prems" Cons Some a have "m = m0 \<or> m \<in> set (finditer_from U rx (m_end m0) s0)"
          by simp
        then show ?thesis
        proof
          assume "m = m0" then show ?thesis by (rule here)
        next
          assume "m \<in> set (finditer_from U rx (m_end m0) s0)"
          from "1.IH" [rule_format, of s0 "m_end m0"] this True Cons obtain j s' where
            j: "j \<le> length s0" "match_at U rx (m_end m0 + j) (drop j s0) = Some (m, s')"
            by auto
          let ?k = "length (x # xs) - length s0"
          have "m_end m0 + j = p + (?k + j)" using sp by simp
          moreover have "drop j s0 = drop (?k + j) r"
            using sp Cons by (metis add.commute drop_drop)
          moreover have "?k + j \<le> length r" using j(1) sp Cons by simp
          ultimately have "?k + j \<le> length r \<and>
              match_at U rx (p + (?k + j)) (drop (?k + j) r) = Some (m, s')"
            using j(2) by (simp add: add.assoc)
          then show ?thesis by blast
        qed
      next
        case False
        with "1.prems" Cons Some a have "m = m0 \<or> m \<in> set (finditer_from U rx (Suc p) xs)"
          by simp
        then show ?thesis using here tail by blast
      qed
    qed
  qed
qed

lemma finditer_from_order:
  "sorted_wrt (\<lambda>a b. m_end a \<le> m_start b) (finditer_from U rx p r) \<and>
   (\<forall>m\<in>set (finditer_from U rx p r). p \<le> m_start m)"
proof (induction r arbitrary: p rule: length_induct)
  case (1 r)
  show ?case
  proof (cases r)
    case Nil
    show ?thesis
    proof (cases "match_at U rx p []")
      case None
      with Nil show ?thesis by simp
    next
      case (Some a)
      obtain m0 s0 where a: "a = (m0, s0)" by (cases a)
      from match_at_span [OF Some [unfolded a]] Some a Nil show ?thesis by simp
    qed
  next
    case (Cons x xs)
    have tail: "sorted_wrt (\<lambda>a b. m_end a \<le> m_start b) (finditer_from U rx (Suc p) xs) \<and>
        (\<forall>m\<in>set (finditer_from U rx (Suc p) xs). Suc p \<le> m_start m)"
      using "1.IH" [rule_format, of xs "Suc p"] Cons by simp
    show ?thesis
    proof (cases "match_at U rx p (x # xs)")
      case None
      with tail Cons show ?thesis by auto
    next
      case (Some a)
      obtain m0 s0 where a: "a = (m0, s0)" by (cases a)
      note sp = match_at_span [OF Some [unfolded a]]
      show ?thesis
      proof (cases "length s0 < length (x # xs)")
        case True
        have "sorted_wrt (\<lambda>a b. m_end a \<le> m_start b) (finditer_from U rx (m_end m0) s0) \<and>
          (\<forall>m\<in>set (finditer_from U rx (m_end m0) s0). m_end m0 \<le> m_start m)"
          using "1.IH" [rule_format, of s0 "m_end m0"] True Cons by simp
        with sp True Some a Cons show ?thesis by auto
      next
        case False
        then have "m_end m0 = p" using sp by simp
        with tail sp False Some a Cons show ?thesis by auto
      qed
    qed
  qed
qed

lemma is_triplet_not_Nil: "is_triplet U w g1 g2 g3 \<Longrightarrow> w \<noteq> []"
  by (auto simp: is_triplet_def asc_def)

lemma code_finditer_match:
  assumes "m \<in> set (re_finditer U code_pattern s)"
  shows "m_start m < m_end m \<and> m_end m \<le> length s \<and>
         (\<exists>g1 g2 g3. m_groups m = [g1, g2, g3] \<and>
            is_triplet U (slice s (m_start m) (m_end m)) g1 g2 g3)"
proof -
  from finditer_from_sound [OF assms [unfolded re_finditer_def]] obtain j s' where
    j: "j \<le> length s" "match_at U code_pattern (0 + j) (drop j s) = Some (m, s')"
    by blast
  from match_at_Some [OF j(2)] obtain w g where
    h: "drop j s = w @ s'" "m = \<lparr>m_start = 0 + j, m_end = 0 + j + length w, m_groups = g\<rparr>"
      "rx_matches U code_pattern (0 + j) w s' g"
    by blast
  from code_matches [OF h(3)] obtain g1 g2 g3 where
    g: "g = [g1, g2, g3]" "is_triplet U w g1 g2 g3"
    by blast
  have w: "w \<noteq> []" using g(2) by (rule is_triplet_not_Nil)
  have "length (drop j s) = length w + length s'" using h(1) by simp
  then have len: "j + length w \<le> length s" using j(1) by simp
  have sl: "slice s (m_start m) (m_end m) = w"
    using h(1,2) by (simp add: slice_def)
  show ?thesis
    using w len sl g h(2) by auto
qed

lemma code_finditer_Nil: "re_finditer U code_pattern [] = []"
proof -
  have "match_at U code_pattern 0 [] = None"
    unfolding match_at_None_iff
    using code_matches is_triplet_not_Nil by fastforce
  then show ?thesis by (simp add: re_finditer_def)
qed

lemma successor_of_eq:
  assumes "unicode_ok U" "m_groups (ms ! i) = [g1, g2, g3]"
  shows "successor_of U s raw ms i =
     Inr (if 3 \<le> length (candidate_name U s ms i) then Some (successor_at U s raw ms i)
          else None)"
proof -
  obtain n where n: "fix_incomplete_name U (candidate_name U s ms i) raw = Inr n"
    using fix_total [OF assms(1)] by blast
  show ?thesis
    using assms(2) n
    by (auto simp: successor_of_def Let_def candidate_name_def [symmetric] successor_at_def
        group_exn_def group_def)
qed

lemma successors_loop_eq:
  assumes "\<And>i. i \<in> set is \<Longrightarrow> successor_of U s raw ms i = Inr (f i)"
  shows "successors_loop U s raw ms is acc = Inr (acc @ List.map_filter f is)"
  using assms
proof (induction "is" arbitrary: acc)
  case Nil
  show ?case by (simp add: map_filter_simps)
next
  case (Cons i "is")
  have i: "successor_of U s raw ms i = Inr (f i)" using Cons.prems by simp
  have rest: "successors_loop U s raw ms is acc' = Inr (acc' @ List.map_filter f is)" for acc'
    using Cons.IH Cons.prems by simp
  show ?case
    by (cases "f i") (simp_all add: i rest map_filter_simps)
qed

lemma map_filter_if:
  "List.map_filter (\<lambda>i. if P i then Some (g i) else None) xs = map g (filter P xs)"
  by (induction xs) (simp_all add: map_filter_simps)

lemma parse_successors_eq:
  assumes "unicode_ok U"
  shows "parse_successors U (Some s) raw =
     Inr (map (successor_at U s raw (re_finditer U code_pattern s))
            (filter (\<lambda>i. 3 \<le> length (candidate_name U s (re_finditer U code_pattern s) i))
               [0..<length (re_finditer U code_pattern s)]))"
proof -
  let ?ms = "re_finditer U code_pattern s"
  let ?f = "\<lambda>i. if 3 \<le> length (candidate_name U s ?ms i) then Some (successor_at U s raw ?ms i)
                  else None"
  have each: "successor_of U s raw ?ms i = Inr (?f i)" if "i \<in> set [0..<length ?ms]" for i
  proof -
    from that have "?ms ! i \<in> set ?ms" by simp
    from code_finditer_match [OF this] obtain g1 g2 g3 where "m_groups (?ms ! i) = [g1, g2, g3]"
      by blast
    from successor_of_eq [OF assms this] show ?thesis .
  qed
  have loop: "successors_loop U s raw ?ms [0..<length ?ms] [] =
      Inr (map (successor_at U s raw ?ms)
             (filter (\<lambda>i. 3 \<le> length (candidate_name U s ?ms i)) [0..<length ?ms]))"
    using successors_loop_eq [of "[0..<length ?ms]" U s raw ?ms ?f "[]", OF each]
    by (simp add: map_filter_if)
  show ?thesis
  proof (cases "s = []")
    case True
    then show ?thesis by (simp add: parse_successors_def code_finditer_Nil)
  next
    case False
    show ?thesis
    proof (cases "?ms = []")
      case True
      with False show ?thesis by (simp add: parse_successors_def)
    next
      case ne: False
      with False loop show ?thesis by (simp add: parse_successors_def Let_def)
    qed
  qed
qed

lemma upt_0_2: "[0..<2] = [0, 1]"
  by (simp add: eval_nat_numeral)

lemma sint_maarten_matches:
  "unicode_ok U \<Longrightarrow>
   re_finditer U code_pattern (asc ''Sint Maarten (Dutch part) (SX, SXM, 534)'') =
     [\<lparr>m_start = 26, m_end = 40, m_groups = [asc ''SX'', asc ''SXM'', asc ''534'']\<rparr>]"
  by (simp add: prog_defs ok_simps)

lemma sint_maarten_between:
  "unicode_ok U \<Longrightarrow>
   country_name_between U (asc ''Sint Maarten (Dutch part) (SX, SXM, 534)'') 0 26 =
     asc ''Sint Maarten (Dutch part)''"
  by (simp add: prog_defs ok_simps Let_def)

lemma sint_maarten_fix:
  "fix_incomplete_name U (asc ''Sint Maarten (Dutch part)'') raw =
     Inr (asc ''Sint Maarten (Dutch part)'')"
  by (rule fix_unchanged_other) (simp_all add: asc_def suffix_to_prefix)

lemma sint_maarten_successors:
  assumes "unicode_ok U"
  shows "parse_successors U (Some (asc ''Sint Maarten (Dutch part) (SX, SXM, 534)''))
       (asc ''Sint Maarten (Dutch part) (SX, SXM, 534)'') =
     Inr [\<lparr>s_name = asc ''Sint Maarten (Dutch part)'', s_alpha2 = asc ''SX'',
           s_alpha3 = asc ''SXM'', s_numeric = asc ''534''\<rparr>]"
  unfolding parse_successors_eq [OF assms] sint_maarten_matches [OF assms]
  by (simp add: candidate_name_def successor_at_def sint_maarten_between [OF assms]
      sint_maarten_fix)

lemma finditer_Nil_successors:
  assumes "unicode_ok U" "re_finditer U code_pattern s = []"
  shows "parse_successors U (Some s) raw = Inr []"
  unfolding parse_successors_eq [OF assms(1)] assms(2) by simp

lemma fix_successor_name:
  assumes "unicode_ok U"
  shows "fix_incomplete_name U (candidate_name U s ms i) raw =
           Inr (s_name (successor_at U s raw ms i))"
proof -
  obtain n where "fix_incomplete_name U (candidate_name U s ms i) raw = Inr n"
    using fix_total [OF assms] by blast
  then show ?thesis by (simp add: successor_at_def)
qed

lemma rx_matches_SeqI:
  assumes "rx_matches U a p w1 (w2 @ r) g1" "rx_matches U b (p + length w1) w2 r g2"
  shows "rx_matches U (Seq a b) p (w1 @ w2) r (g1 @ g2)"
  using assms by auto

lemma triplet_matches:
  assumes "is_triplet U w g1 g2 g3"
  shows "rx_matches U code_pattern p w r [g1, g2, g3]"
proof -
  from assms obtain w1 w2 where
    h: "w = asc ''('' @ g1 @ asc '','' @ w1 @ g2 @ asc '','' @ w2 @ g3 @ asc '')''"
      "length g1 = 2" "is_upper g1" "list_all (u_space U) w1"
      "length g2 = 2 \<or> length g2 = 3" "is_upper g2" "list_all (u_space U) w2"
      "length g3 = 3 \<or> length g3 = 4" "is_digits U g3"
    unfolding is_triplet_def by blast
  have lit: "rx_matches U (Lit v) q v t []" for v q t by simp
  have a2: "rx_matches U (Grp (Rep Upper 2 (Some 2))) q g1 t ([] @ [g1])" for q t
    using h(2,3) by (simp add: rep_ok_exact in_cls_Upper is_upper_def)
  have sp1: "rx_matches U (Rep Space 0 None) q w1 t []" for q t
    using h(4) by (simp add: rep_ok_star in_cls_Space)
  have a3: "rx_matches U (Grp (Rep Upper 2 (Some 3))) q g2 t ([] @ [g2])" for q t
    using h(5,6) by (simp add: rep_ok_2_3 in_cls_Upper is_upper_def)
  have sp2: "rx_matches U (Rep Space 0 None) q w2 t []" for q t
    using h(7) by (simp add: rep_ok_star in_cls_Space)
  have nu: "rx_matches U (Grp (Rep Digit 3 (Some 4))) q g3 t ([] @ [g3])" for q t
    using h(8,9) by (simp add: rep_ok_3_4 in_cls_Digit is_digits_def)
  have "rx_matches U code_pattern
      p (asc ''('' @ g1 @ asc '','' @ w1 @ g2 @ asc '','' @ w2 @ g3 @ asc '')'') r
      ([] @ ([] @ [g1]) @ [] @ [] @ ([] @ [g2]) @ [] @ [] @ ([] @ [g3]) @ [])"
    by (simp only: code_pattern_def seqs.simps) (intro rx_matches_SeqI lit a2 sp1 a3 sp2 nu)
  then show ?thesis
    using h(1) by simp
qed

text \<open>
  Under the ASCII behaviour of the tables, a code triplet starts with its only open
  parenthesis and ends with its only close parenthesis.
\<close>

lemma triplet_parens:
  assumes "unicode_ok U" "is_triplet U w g1 g2 g3"
  shows "(\<exists>v. w = 40 # v \<and> 40 \<notin> set v) \<and> (\<exists>u. w = u @ [41] \<and> 41 \<notin> set u)"
proof -
  from assms(2) obtain w1 w2 where
    h: "w = asc ''('' @ g1 @ asc '','' @ w1 @ g2 @ asc '','' @ w2 @ g3 @ asc '')''"
      "is_upper g1" "list_all (u_space U) w1" "is_upper g2" "list_all (u_space U) w2"
      "is_digits U g3"
    unfolding is_triplet_def by blast
  have sp: "\<not> u_space U 40" "\<not> u_space U 41"
    using assms(1) by (simp_all add: ok_space ascii_space_def)
  have de: "u_decimal U 40 = None" "u_decimal U 41 = None"
    using assms(1) by (simp_all add: ok_decimal ascii_decimal_def)
  have g1: "40 \<notin> set g1" "41 \<notin> set g1" using h(2) by (auto simp: is_upper_def list_all_iff)
  have g2: "40 \<notin> set g2" "41 \<notin> set g2" using h(4) by (auto simp: is_upper_def list_all_iff)
  have w1: "40 \<notin> set w1" "41 \<notin> set w1" using h(3) sp by (auto simp: list_all_iff)
  have w2: "40 \<notin> set w2" "41 \<notin> set w2" using h(5) sp by (auto simp: list_all_iff)
  have g3: "40 \<notin> set g3" "41 \<notin> set g3" using h(6) de by (auto simp: is_digits_def list_all_iff)
  have a: "w = 40 # (g1 @ asc '','' @ w1 @ g2 @ asc '','' @ w2 @ g3 @ asc '')'')"
    using h(1) by (simp add: asc_def)
  have a': "40 \<notin> set (g1 @ asc '','' @ w1 @ g2 @ asc '','' @ w2 @ g3 @ asc '')'')"
    using g1 g2 w1 w2 g3 by (simp add: asc_def)
  have b: "w = (asc ''('' @ g1 @ asc '','' @ w1 @ g2 @ asc '','' @ w2 @ g3) @ [41]"
    using h(1) by (simp add: asc_def)
  have b': "41 \<notin> set (asc ''('' @ g1 @ asc '','' @ w1 @ g2 @ asc '','' @ w2 @ g3)"
    using g1 g2 w1 w2 g3 by (simp add: asc_def)
  from a a' b b' show ?thesis by blast
qed

lemma first_close_unique:
  assumes "w = u @ [c]" "c \<notin> set u" "w' = u' @ [c]" "c \<notin> set u'" "prefix w t" "prefix w' t"
  shows "w = w'"
proof -
  from assms(1,5) obtain z where z: "t = u @ c # z" by (auto simp: prefix_def)
  from assms(3,6) obtain z' where z': "t = u' @ c # z'" by (auto simp: prefix_def)
  have tw: "c \<notin> set v \<Longrightarrow> takeWhile (\<lambda>x. x \<noteq> c) (v @ c # y) = v" for v y
    by (induction v) auto
  have "takeWhile (\<lambda>x. x \<noteq> c) t = u"
    by (subst z) (rule tw [OF assms(2)])
  moreover have "takeWhile (\<lambda>x. x \<noteq> c) t = u'"
    by (subst z') (rule tw [OF assms(4)])
  ultimately show ?thesis using assms(1,3) by simp
qed

lemma triplet_at_unique:
  assumes "unicode_ok U" "is_triplet U w g1 g2 g3" "is_triplet U w' g1' g2' g3'"
    "prefix w t" "prefix w' t"
  shows "w = w'"
proof -
  from triplet_parens [OF assms(1,2)] obtain u where u: "w = u @ [41]" "41 \<notin> set u" by blast
  from triplet_parens [OF assms(1,3)] obtain u' where u': "w' = u' @ [41]" "41 \<notin> set u'" by blast
  from u u' assms(4,5) show ?thesis by (rule first_close_unique)
qed

lemma code_match_at_paren:
  assumes "match_at U code_pattern q t \<noteq> None"
  shows "t \<noteq> [] \<and> hd t = 40"
proof -
  from assms obtain w r g where h: "t = w @ r" "rx_matches U code_pattern q w r g"
    unfolding match_at_None_iff by blast
  from code_matches [OF h(2)] obtain g1 g2 g3 where "is_triplet U w g1 g2 g3" by blast
  then obtain v where "w = 40 # v" by (auto simp: is_triplet_def asc_def)
  with h(1) show ?thesis by simp
qed

text \<open>
  \<^verbatim>\<open>finditer\<close> finds every occurrence of the code-triplet pattern: the characters that it
  passes over after a match are inside a triplet, where no triplet starts.
\<close>

lemma code_finditer_complete:
  assumes ok: "unicode_ok U"
  shows "j \<le> length r \<Longrightarrow> match_at U code_pattern (p + j) (drop j r) \<noteq> None \<Longrightarrow>
         \<exists>m\<in>set (finditer_from U code_pattern p r). m_start m = p + j"
proof (induction r arbitrary: p j rule: length_induct)
  case (1 r)
  note jl = "1.prems"(1) and mj = "1.prems"(2)
  show ?case
  proof (cases r)
    case Nil
    with jl mj have "match_at U code_pattern p [] \<noteq> None" by simp
    with code_match_at_paren show ?thesis by blast
  next
    case (Cons x xs)
    show ?thesis
    proof (cases "match_at U code_pattern p (x # xs)")
      case None
      with mj Cons have "j \<noteq> 0" by (cases j) auto
      then obtain j' where j': "j = Suc j'" by (cases j) auto
      have "j' \<le> length xs" using jl j' Cons by simp
      moreover have "match_at U code_pattern (Suc p + j') (drop j' xs) \<noteq> None"
        using mj j' Cons by simp
      ultimately obtain m where "m \<in> set (finditer_from U code_pattern (Suc p) xs)"
        "m_start m = Suc p + j'"
        using "1.IH" [rule_format, of xs j' "Suc p"] Cons by auto
      with None Cons j' show ?thesis by auto
    next
      case (Some a)
      obtain m0 s0 where a: "a = (m0, s0)" by (cases a)
      note sm = Some [unfolded a]
      note sp = match_at_span [OF sm]
      from match_at_Some [OF sm] obtain w0 g where
        w0: "x # xs = w0 @ s0" "rx_matches U code_pattern p w0 s0 g"
        by blast
      from code_matches [OF w0(2)] obtain g1 g2 g3 where tr: "is_triplet U w0 g1 g2 g3" by blast
      from triplet_parens [OF ok tr] obtain v where v: "w0 = 40 # v" "40 \<notin> set v" by blast
      have lt: "length s0 < length (x # xs)"
        using w0(1) v(1) by (metis add_Suc length_Cons length_append less_add_Suc2 add.commute)
      let ?k = "length w0"
      have k: "?k = length (x # xs) - length s0" "s0 = drop ?k r"
        using w0(1) Cons by (simp_all add: append_eq_conv_conj)
      have fi: "finditer_from U code_pattern p r = m0 # finditer_from U code_pattern (m_end m0) s0"
        using Cons sm lt by simp
      have en: "m_end m0 = p + ?k" using sp k(1) by simp
      consider (here) "j = 0" | (inside) "0 < j" "j < ?k" | (after) "?k \<le> j" by linarith
      then show ?thesis
      proof cases
        case here
        with fi sp show ?thesis by simp
      next
        case inside
        from code_match_at_paren [OF mj] have "drop j r \<noteq> []" "hd (drop j r) = 40" by simp_all
        then have "r ! j = 40" by (simp add: hd_drop_conv_nth)
        moreover have "r ! j = w0 ! j"
          using w0(1) Cons inside(2) by (simp add: nth_append)
        moreover have "w0 ! j = v ! (j - 1)" using v(1) inside(1) by (simp add: nth_Cons')
        moreover have "j - 1 < length v" using v(1) inside by simp
        ultimately have "40 \<in> set v" by (metis nth_mem)
        with v(2) show ?thesis by simp
      next
        case after
        have 1: "j - ?k \<le> length s0" using jl k(2) by simp
        have "drop (j - ?k) s0 = drop j r" using k(2) after by simp
        moreover have "m_end m0 + (j - ?k) = p + j" using en after by simp
        ultimately have 2: "match_at U code_pattern (m_end m0 + (j - ?k)) (drop (j - ?k) s0) \<noteq> None"
          using mj by simp
        have "length s0 < length r" using lt Cons by simp
        from "1.IH" [rule_format, OF this 1 2] obtain m where
          "m \<in> set (finditer_from U code_pattern (m_end m0) s0)" "m_start m = m_end m0 + (j - ?k)"
          by blast
        with fi en after show ?thesis by auto
      qed
    qed
  qed
qed

lemma code_finditer_occurrence:
  assumes ok: "unicode_ok U" and pre: "prefix w (drop i s)" and tr: "is_triplet U w g1 g2 g3"
  shows "\<exists>m\<in>set (re_finditer U code_pattern s).
           m_start m = i \<and> slice s (m_start m) (m_end m) = w"
proof -
  from pre obtain r where r: "drop i s = w @ r" by (auto simp: prefix_def)
  have "w \<noteq> []" using tr by (rule is_triplet_not_Nil)
  with r have il: "i \<le> length s" by (cases "i \<le> length s") auto
  have "rx_matches U code_pattern (0 + i) w r [g1, g2, g3]"
    using tr by (rule triplet_matches)
  with r have "match_at U code_pattern (0 + i) (drop i s) \<noteq> None"
    unfolding match_at_None_iff by blast
  from code_finditer_complete [OF ok il this] obtain m where
    m: "m \<in> set (re_finditer U code_pattern s)" "m_start m = i"
    unfolding re_finditer_def by auto
  from code_finditer_match [OF m(1)] obtain h1 h2 h3 where
    t: "m_start m < m_end m" "m_end m \<le> length s"
       "is_triplet U (slice s (m_start m) (m_end m)) h1 h2 h3"
    by blast
  have "prefix (slice s (m_start m) (m_end m)) (drop i s)"
    unfolding slice_def m(2) by (rule take_is_prefix)
  from triplet_at_unique [OF ok t(3) tr this pre] m show ?thesis by blast
qed

lemma sorted_starts_distinct:
  assumes "sorted_wrt (\<lambda>a b. m_end a \<le> m_start b) ms" "\<forall>m\<in>set ms. m_start m < m_end m"
  shows "distinct (map m_start ms)"
  using assms
proof (induction ms)
  case Nil
  show ?case by simp
next
  case (Cons m ms)
  have "m_start m \<noteq> m_start b" if "b \<in> set ms" for b
    using Cons.prems that by force
  with Cons show ?case by auto
qed

text \<open>
  C1, as amended. With \<open>ms\<close> the occurrences of the code-triplet pattern that \<^verbatim>\<open>finditer\<close>
  finds in the description: the successors are, in the order of the occurrences, those of the
  occurrences whose candidate name has at least three characters (the others are skipped);
  the name of a successor is the candidate name after the repair step, and its codes are the
  three groups of the occurrence. Every element of \<open>ms\<close> is a code triplet inside the string,
  and each one starts where the one before it has ended or later. Nothing is missed: wherever
  a code triplet \<open>w\<close> stands in the string, at an index \<open>i\<close>, an element of \<open>ms\<close> starts at \<open>i\<close>
  and spans \<open>w\<close>; and no two elements of \<open>ms\<close> start at the same index. An absent description
  and a description without an occurrence give no successor. The example of the
  specification.
\<close>

theorem successors_of_code_triplets:
  assumes "unicode_ok U" and "ms = re_finditer U code_pattern s"
  shows "parse_successors U None raw = Inr [] \<and>
    (re_finditer U code_pattern s0 = [] \<longrightarrow> parse_successors U (Some s0) raw0 = Inr []) \<and>
    parse_successors U (Some s) raw =
      Inr (map (successor_at U s raw ms)
             (filter (\<lambda>i. 3 \<le> length (candidate_name U s ms i)) [0..<length ms])) \<and>
    (\<forall>i<length ms. fix_incomplete_name U (candidate_name U s ms i) raw =
       Inr (s_name (successor_at U s raw ms i))) \<and>
    list_all (\<lambda>m. m_start m < m_end m \<and> m_end m \<le> length s \<and>
       (\<exists>g1 g2 g3. m_groups m = [g1, g2, g3] \<and>
          is_triplet U (slice s (m_start m) (m_end m)) g1 g2 g3)) ms \<and>
    sorted_wrt (\<lambda>a b. m_end a \<le> m_start b) ms \<and>
    (\<forall>i w g1 g2 g3. prefix w (drop i s) \<and> is_triplet U w g1 g2 g3 \<longrightarrow>
       (\<exists>m\<in>set ms. m_start m = i \<and> slice s (m_start m) (m_end m) = w)) \<and>
    distinct (map m_start ms) \<and>
    parse_successors U (Some (asc ''Sint Maarten (Dutch part) (SX, SXM, 534)''))
       (asc ''Sint Maarten (Dutch part) (SX, SXM, 534)'') =
      Inr [\<lparr>s_name = asc ''Sint Maarten (Dutch part)'', s_alpha2 = asc ''SX'',
            s_alpha3 = asc ''SXM'', s_numeric = asc ''534''\<rparr>]"
proof -
  have 1: "parse_successors U None raw = Inr []"
    by (simp add: parse_successors_def)
  have 2: "re_finditer U code_pattern s0 = [] \<longrightarrow> parse_successors U (Some s0) raw0 = Inr []"
    using finditer_Nil_successors [OF assms(1)] by blast
  have 3: "parse_successors U (Some s) raw =
      Inr (map (successor_at U s raw ms)
             (filter (\<lambda>i. 3 \<le> length (candidate_name U s ms i)) [0..<length ms]))"
    unfolding assms(2) by (rule parse_successors_eq [OF assms(1)])
  have 4: "\<forall>i<length ms. fix_incomplete_name U (candidate_name U s ms i) raw =
       Inr (s_name (successor_at U s raw ms i))"
    using fix_successor_name [OF assms(1)] by blast
  have 5: "list_all (\<lambda>m. m_start m < m_end m \<and> m_end m \<le> length s \<and>
       (\<exists>g1 g2 g3. m_groups m = [g1, g2, g3] \<and>
          is_triplet U (slice s (m_start m) (m_end m)) g1 g2 g3)) ms"
    unfolding list_all_iff assms(2) using code_finditer_match by blast
  have 6: "sorted_wrt (\<lambda>a b. m_end a \<le> m_start b) ms"
    unfolding assms(2) re_finditer_def using finditer_from_order by blast
  have 7: "\<forall>i w g1 g2 g3. prefix w (drop i s) \<and> is_triplet U w g1 g2 g3 \<longrightarrow>
       (\<exists>m\<in>set ms. m_start m = i \<and> slice s (m_start m) (m_end m) = w)"
    unfolding assms(2) using code_finditer_occurrence [OF assms(1)] by blast
  have "\<forall>m\<in>set ms. m_start m < m_end m"
    using 5 by (simp add: list_all_iff)
  with 6 have 8: "distinct (map m_start ms)"
    by (rule sorted_starts_distinct)
  from 1 2 3 4 5 6 7 8 sint_maarten_successors [OF assms(1)] show ?thesis
    by (intro conjI)
qed

lemma czech_matches:
  "re_finditer ascii_db code_pattern
     (asc ''Divided into: Czech Republic (CZ, CZE, 203) Slovakia (SK, SVK, 703)'') =
   [\<lparr>m_start = 29, m_end = 43, m_groups = [asc ''CZ'', asc ''CZE'', asc ''203'']\<rparr>,
    \<lparr>m_start = 53, m_end = 67, m_groups = [asc ''SK'', asc ''SVK'', asc ''703'']\<rparr>]"
  by (simp add: prog_defs ascii_db_def ok_simps)

lemma czech_between:
  "country_name_between ascii_db
     (asc ''Divided into: Czech Republic (CZ, CZE, 203) Slovakia (SK, SVK, 703)'') 0 29 =
     asc ''Czech Republic''"
  by (simp add: prog_defs ascii_db_def ok_simps Let_def)

lemma slovakia_between:
  "country_name_between ascii_db
     (asc ''Divided into: Czech Republic (CZ, CZE, 203) Slovakia (SK, SVK, 703)'') 43 53 =
     asc ''Slovakia''"
  by (simp add: prog_defs ascii_db_def ok_simps Let_def)

lemma czech_fix:
  "fix_incomplete_name U (asc ''Czech Republic'') raw = Inr (asc ''Czech Republic'') \<and>
   fix_incomplete_name U (asc ''Slovakia'') raw = Inr (asc ''Slovakia'')"
  by (simp add: fix_unchanged_other asc_def suffix_to_prefix)

lemma tanzania_matches:
  "re_finditer ascii_db code_pattern (asc ''Merged into Tanzania'') = []"
  by (simp add: prog_defs ascii_db_def ok_simps)

theorem successors_of_code_triplets_witness:
  "unicode_ok ascii_db \<and>
   re_finditer ascii_db code_pattern
     (asc ''Divided into: Czech Republic (CZ, CZE, 203) Slovakia (SK, SVK, 703)'') =
     [\<lparr>m_start = 29, m_end = 43, m_groups = [asc ''CZ'', asc ''CZE'', asc ''203'']\<rparr>,
      \<lparr>m_start = 53, m_end = 67, m_groups = [asc ''SK'', asc ''SVK'', asc ''703'']\<rparr>] \<and>
   parse_successors ascii_db
     (Some (asc ''Divided into: Czech Republic (CZ, CZE, 203) Slovakia (SK, SVK, 703)''))
     (asc ''Divided into: Czech Republic (CZ, CZE, 203) Slovakia (SK, SVK, 703)'') =
     Inr [\<lparr>s_name = asc ''Czech Republic'', s_alpha2 = asc ''CZ'', s_alpha3 = asc ''CZE'',
           s_numeric = asc ''203''\<rparr>,
          \<lparr>s_name = asc ''Slovakia'', s_alpha2 = asc ''SK'', s_alpha3 = asc ''SVK'',
           s_numeric = asc ''703''\<rparr>] \<and>
   re_finditer ascii_db code_pattern (asc ''Merged into Tanzania'') = [] \<and>
   parse_successors ascii_db (Some (asc ''Merged into Tanzania'')) (asc ''Merged into Tanzania'') =
     Inr []"
proof -
  note t = successors_of_code_triplets [OF unicode_ok_ascii_db czech_matches [symmetric],
      of "asc ''Divided into: Czech Republic (CZ, CZE, 203) Slovakia (SK, SVK, 703)''"
         "asc ''Merged into Tanzania''" "asc ''Merged into Tanzania''"]
  have a: "parse_successors ascii_db (Some (asc ''Merged into Tanzania''))
      (asc ''Merged into Tanzania'') = Inr []"
    using t [THEN conjunct2, THEN conjunct1] tanzania_matches by simp
  have b: "parse_successors ascii_db
     (Some (asc ''Divided into: Czech Republic (CZ, CZE, 203) Slovakia (SK, SVK, 703)''))
     (asc ''Divided into: Czech Republic (CZ, CZE, 203) Slovakia (SK, SVK, 703)'') =
     Inr [\<lparr>s_name = asc ''Czech Republic'', s_alpha2 = asc ''CZ'', s_alpha3 = asc ''CZE'',
           s_numeric = asc ''203''\<rparr>,
          \<lparr>s_name = asc ''Slovakia'', s_alpha2 = asc ''SK'', s_alpha3 = asc ''SVK'',
           s_numeric = asc ''703''\<rparr>]"
    unfolding t [THEN conjunct2, THEN conjunct2, THEN conjunct1]
    by (simp add: upt_0_2 candidate_name_def successor_at_def czech_between slovakia_between
        czech_fix)
  from a b show ?thesis
    by (simp add: unicode_ok_ascii_db czech_matches tanzania_matches)
qed

lemma uk_matches:
  "re_finditer ascii_db code_pattern (asc ''UK (GB, GBR, 826)'') =
     [\<lparr>m_start = 3, m_end = 17, m_groups = [asc ''GB'', asc ''GBR'', asc ''826'']\<rparr>]"
  by (simp add: prog_defs ascii_db_def ok_simps)

lemma uk_between: "country_name_between ascii_db (asc ''UK (GB, GBR, 826)'') 0 3 = asc ''UK''"
  by (simp add: prog_defs ascii_db_def ok_simps Let_def)

text \<open>
  C1 as stated fails: \<^verbatim>\<open>UK (GB, GBR, 826)\<close> has one occurrence of the pattern and no
  successor, the name before the occurrence having two characters.
\<close>

theorem occurrence_without_successor:
  "re_finditer ascii_db code_pattern (asc ''UK (GB, GBR, 826)'') =
     [\<lparr>m_start = 3, m_end = 17, m_groups = [asc ''GB'', asc ''GBR'', asc ''826'']\<rparr>] \<and>
   parse_successors ascii_db (Some (asc ''UK (GB, GBR, 826)'')) (asc ''UK (GB, GBR, 826)'') =
     Inr []"
proof -
  have "parse_successors ascii_db (Some (asc ''UK (GB, GBR, 826)'')) (asc ''UK (GB, GBR, 826)'') =
     Inr []"
    unfolding parse_successors_eq [OF unicode_ok_ascii_db] uk_matches
    by (simp add: candidate_name_def uk_between)
  then show ?thesis by (simp add: uk_matches)
qed

end
